theory Spec2Isabelle
  imports Main
begin

section \<open>Memory model of \<open>SinglyLinkedList.hpp\<close>\<close>

text \<open>
  The list keeps its nodes on the free store and reaches them through pointers, and
  several claims depend on which pointer refers to which node. The embedding therefore
  has an explicit store: nodes live at addresses, list objects are identified by an
  object identity, and every member function takes the identity of \<open>this\<close> and the
  world it runs in.

  A pointer is \<open>addr option\<close>, with \<open>None\<close> for \<open>nullptr\<close>. Allocation always hands
  out the address \<open>fresh\<close> and advances it; allocation failure (\<open>std::bad_alloc\<close>) is
  not modelled. A node that has been destroyed is removed from \<open>cells\<close>.
\<close>

type_synonym addr = nat

type_synonym lid = nat

record 'a Node =
  data :: 'a
  nextp :: "addr option"

record sll =
  head :: "addr option"
  tail :: "addr option"
  list_size :: nat

record 'a world =
  cells :: "addr \<Rightarrow> 'a Node option"
  fresh :: addr
  objs :: "lid \<Rightarrow> sll"

text \<open>
  What a call does: it returns a value, or throws \<open>std::runtime_error\<close> with a message,
  in both cases leaving a world behind; or it dereferences a null or dangling pointer,
  which is undefined behaviour and leaves nothing to reason about. A loop that never
  ends is the value \<open>None\<close> of the enclosing \<open>option\<close>.
\<close>

datatype ('r, 'w) outcome = Return 'r 'w | Throw string 'w | Undefined

text \<open>Reading through a pointer: only addresses that were handed out and are still live.\<close>

definition deref :: "'a world \<Rightarrow> addr \<Rightarrow> 'a Node option" where
  "deref w a = (if a < fresh w then cells w a else None)"

text \<open>\<open>std::make_unique<Node>(val)\<close>: the constructor \<open>Node(T value)\<close> sets \<open>next\<close> to null.\<close>

definition make_node :: "'a \<Rightarrow> 'a world \<Rightarrow> addr \<times> 'a world" where
  "make_node val w =
     (fresh w,
      w\<lparr>cells := (cells w)(fresh w \<mapsto> \<lparr>data = val, nextp = None\<rparr>), fresh := Suc (fresh w)\<rparr>)"

definition set_next :: "addr \<Rightarrow> addr option \<Rightarrow> 'a world \<Rightarrow> 'a world" where
  "set_next a p w = w\<lparr>cells := (cells w)(a := map_option (\<lambda>n. n\<lparr>nextp := p\<rparr>) (cells w a))\<rparr>"

definition set_head :: "lid \<Rightarrow> addr option \<Rightarrow> 'a world \<Rightarrow> 'a world" where
  "set_head this p w = w\<lparr>objs := (objs w)(this := (objs w this)\<lparr>head := p\<rparr>)\<rparr>"

definition set_tail :: "lid \<Rightarrow> addr option \<Rightarrow> 'a world \<Rightarrow> 'a world" where
  "set_tail this p w = w\<lparr>objs := (objs w)(this := (objs w this)\<lparr>tail := p\<rparr>)\<rparr>"

definition set_size :: "lid \<Rightarrow> nat \<Rightarrow> 'a world \<Rightarrow> 'a world" where
  "set_size this n w = w\<lparr>objs := (objs w)(this := (objs w this)\<lparr>list_size := n\<rparr>)\<rparr>"

text \<open>
  \<open>list_size\<close> is a \<open>std::size_t\<close>. It grows by one per call, so no run can take
  it to the top of its range, and increments are plain. A decrement at zero wraps
  around, which \<open>nat\<close> subtraction would hide, so it is written out (for 64 bits).
\<close>

definition SIZE_MAX :: nat where
  "SIZE_MAX = 2 ^ 64 - 1"

definition size_dec :: "nat \<Rightarrow> nat" where
  "size_dec n = (if n = 0 then SIZE_MAX else n - 1)"

definition incr_size :: "lid \<Rightarrow> 'a world \<Rightarrow> 'a world" where
  "incr_size this w = set_size this (Suc (list_size (objs w this))) w"

definition decr_size :: "lid \<Rightarrow> 'a world \<Rightarrow> 'a world" where
  "decr_size this w = set_size this (size_dec (list_size (objs w this))) w"

text \<open>
  Letting go of an owning pointer destroys the node it owns, and the destructor of the
  node lets go of its \<open>next\<close> in turn. Only live addresses below \<open>fresh\<close> can be
  destroyed, so this always ends.
\<close>

function release :: "addr option \<Rightarrow> 'a world \<Rightarrow> (unit, 'a world) outcome" where
  "release None w = Return () w"
| "release (Some a) w =
     (case deref w a of
        None \<Rightarrow> Undefined
      | Some n \<Rightarrow> release (nextp n) (w\<lparr>cells := (cells w)(a := None)\<rparr>))"
  by pat_completeness auto

definition live :: "'a world \<Rightarrow> addr set" where
  "live w = {x. x < fresh w \<and> cells w x \<noteq> None}"

termination release
proof (relation "measure (\<lambda>(p, w). card (live w))", goal_cases)
  case 1
  show ?case by simp
next
  case (2 a w n)
  have fin: "finite (live w)" by (simp add: live_def)
  have mem: "a \<in> live w" using 2 by (auto simp: live_def deref_def split: if_splits)
  have "live (w\<lparr>cells := (cells w)(a := None)\<rparr>) = live w - {a}"
    by (auto simp: live_def)
  then have "card (live (w\<lparr>cells := (cells w)(a := None)\<rparr>)) < card (live w)"
    using card_Diff1_less [OF fin mem] by simp
  then show ?case by simp
qed

section \<open>Member functions\<close>

subsection \<open>Construction, \<open>clear\<close> and the accessors\<close>

definition ctor :: "lid \<Rightarrow> 'a world \<Rightarrow> 'a world" where
  "ctor this w = w\<lparr>objs := (objs w)(this := \<lparr>head = None, tail = None, list_size = 0\<rparr>)\<rparr>"

definition clear :: "lid \<Rightarrow> 'a world \<Rightarrow> (unit, 'a world) outcome" where
  "clear this w =
     (case release (head (objs w this)) (set_head this None w) of
        Return _ w1 \<Rightarrow> Return () (set_size this 0 (set_tail this None w1))
      | Throw m w1 \<Rightarrow> Throw m w1
      | Undefined \<Rightarrow> Undefined)"

definition getHead :: "lid \<Rightarrow> 'a world \<Rightarrow> ('a, 'a world) outcome" where
  "getHead this w =
     (case head (objs w this) of
        None \<Rightarrow> Throw ''List is empty: cannot access head.'' w
      | Some h \<Rightarrow> (case deref w h of None \<Rightarrow> Undefined | Some n \<Rightarrow> Return (data n) w))"

definition getTail :: "lid \<Rightarrow> 'a world \<Rightarrow> ('a, 'a world) outcome" where
  "getTail this w =
     (case tail (objs w this) of
        None \<Rightarrow> Throw ''List is empty: cannot access tail.'' w
      | Some t \<Rightarrow> (case deref w t of None \<Rightarrow> Undefined | Some n \<Rightarrow> Return (data n) w))"

definition size_sll :: "lid \<Rightarrow> 'a world \<Rightarrow> nat" where
  "size_sll this w = list_size (objs w this)"

subsection \<open>\<open>push_back\<close>, \<open>push_front\<close>, \<open>pop_front\<close>, \<open>pop_back\<close>\<close>

text \<open>
  \<open>tail->next = std::move(newNode)\<close> stores the new pointer and lets go of the one
  that was there before; on a well-formed list that one is null.
\<close>

definition push_back :: "lid \<Rightarrow> 'a \<Rightarrow> 'a world \<Rightarrow> (unit, 'a world) outcome" where
  "push_back this val w =
     (let (newNodePtr, w1) = make_node val w in
      if head (objs w1 this) = None then
        Return () (incr_size this
          (set_tail this (Some newNodePtr) (set_head this (Some newNodePtr) w1)))
      else
        (case tail (objs w1 this) of
           None \<Rightarrow> Undefined
         | Some t \<Rightarrow>
            (case deref w1 t of
               None \<Rightarrow> Undefined
             | Some tn \<Rightarrow>
                (case release (nextp tn) (set_next t (Some newNodePtr) w1) of
                   Return _ w2 \<Rightarrow> Return () (incr_size this (set_tail this (Some newNodePtr) w2))
                 | Throw m w2 \<Rightarrow> Throw m w2
                 | Undefined \<Rightarrow> Undefined))))"

definition push_front :: "lid \<Rightarrow> 'a \<Rightarrow> 'a world \<Rightarrow> (unit, 'a world) outcome" where
  "push_front this val w =
     (let (newNodePtr, w1) = make_node val w in
      if head (objs w1 this) = None then
        Return () (incr_size this
          (set_tail this (Some newNodePtr) (set_head this (Some newNodePtr) w1)))
      else
        Return () (incr_size this
          (set_head this (Some newNodePtr) (set_next newNodePtr (head (objs w1 this)) w1))))"

text \<open>
  \<open>head = std::move(head->next)\<close> empties the old first node's \<open>next\<close> before that
  node is destroyed, so only that one node goes.
\<close>

definition pop_front :: "lid \<Rightarrow> 'a world \<Rightarrow> (unit, 'a world) outcome" where
  "pop_front this w =
     (case head (objs w this) of
        None \<Rightarrow> Throw ''List is empty: cannot pop front.'' w
      | Some h \<Rightarrow>
         (case deref w h of
            None \<Rightarrow> Undefined
          | Some hn \<Rightarrow>
             (let w1 = set_head this (nextp hn) (w\<lparr>cells := (cells w)(h := None)\<rparr>);
                  w2 = (if head (objs w1 this) = None then set_tail this None w1 else w1)
              in Return () (decr_size this w2))))"

partial_function (option) pop_back_loop ::
  "'a world \<Rightarrow> addr option \<Rightarrow> addr option \<Rightarrow> (addr, 'a world) outcome option" where
  "pop_back_loop w tgt current =
     (case current of
        None \<Rightarrow> Some Undefined
      | Some c \<Rightarrow>
         (case deref w c of
            None \<Rightarrow> Some Undefined
          | Some n \<Rightarrow>
             if nextp n \<noteq> tgt then pop_back_loop w tgt (nextp n) else Some (Return c w)))"

definition reset_next :: "addr \<Rightarrow> 'a world \<Rightarrow> (unit, 'a world) outcome" where
  "reset_next a w =
     (case deref w a of
        None \<Rightarrow> Undefined
      | Some n \<Rightarrow> release (nextp n) (set_next a None w))"

definition pop_back :: "lid \<Rightarrow> 'a world \<Rightarrow> (unit, 'a world) outcome option" where
  "pop_back this w =
     (if head (objs w this) = None then
        Some (Throw ''List is empty: cannot pop back.'' w)
      else if head (objs w this) = tail (objs w this) then
        (case release (head (objs w this)) (set_head this None w) of
           Return _ w1 \<Rightarrow> Some (Return () (decr_size this (set_tail this None w1)))
         | Throw m w1 \<Rightarrow> Some (Throw m w1)
         | Undefined \<Rightarrow> Some Undefined)
      else
        (case pop_back_loop w (tail (objs w this)) (head (objs w this)) of
           None \<Rightarrow> None
         | Some (Return current w1) \<Rightarrow>
            (case reset_next current w1 of
               Return _ w2 \<Rightarrow> Some (Return () (decr_size this (set_tail this (Some current) w2)))
             | Throw m w2 \<Rightarrow> Some (Throw m w2)
             | Undefined \<Rightarrow> Some Undefined)
         | Some (Throw m w1) \<Rightarrow> Some (Throw m w1)
         | Some Undefined \<Rightarrow> Some Undefined))"

subsection \<open>\<open>insert_before\<close> and \<open>erase_before\<close>\<close>

partial_function (option) insert_before_loop ::
  "'a world \<Rightarrow> addr option \<Rightarrow> addr option \<Rightarrow> (addr option, 'a world) outcome option" where
  "insert_before_loop w pos current =
     (case current of
        None \<Rightarrow> Some (Return None w)
      | Some c \<Rightarrow>
         (case deref w c of
            None \<Rightarrow> Some Undefined
          | Some n \<Rightarrow>
             if nextp n \<noteq> pos then insert_before_loop w pos (nextp n)
             else Some (Return (Some c) w)))"

text \<open>
  After the splice \<open>current->next\<close> is the new node, so the test
  \<open>current->next.get() == tail\<close> compares the new node with \<open>tail\<close>, and the assignment
  under it stores the value \<open>tail\<close> was just found to have.
\<close>

definition insert_before ::
  "lid \<Rightarrow> addr option \<Rightarrow> 'a \<Rightarrow> 'a world \<Rightarrow> (unit, 'a world) outcome option" where
  "insert_before this pos val w =
     (if pos = head (objs w this) then Some (push_front this val w)
      else
        (case insert_before_loop w pos (head (objs w this)) of
           None \<Rightarrow> None
         | Some (Return None w1) \<Rightarrow> Some (Throw ''Position not found.'' w1)
         | Some (Return (Some current) w1) \<Rightarrow>
            (case deref w1 current of
               None \<Rightarrow> Some Undefined
             | Some cn \<Rightarrow>
                (let (newNodePtr, w2) = make_node val w1;
                     w3 = set_next current None (set_next newNodePtr (nextp cn) w2);
                     w4 = set_next current (Some newNodePtr) w3;
                     w5 = (if Some newNodePtr = tail (objs w4 this)
                           then set_tail this (Some newNodePtr) w4 else w4)
                 in Some (Return () (incr_size this w5))))
         | Some (Throw m w1) \<Rightarrow> Some (Throw m w1)
         | Some Undefined \<Rightarrow> Some Undefined))"

text \<open>
  The loop of \<open>erase_before\<close> advances \<open>current\<close> and then reads \<open>current->next\<close>
  to decide whether to throw, before it has checked that \<open>current\<close> is not null.
\<close>

partial_function (option) erase_before_loop ::
  "'a world \<Rightarrow> addr option \<Rightarrow> addr option \<Rightarrow> addr \<Rightarrow>
     (addr option \<times> addr, 'a world) outcome option" where
  "erase_before_loop w pos prev current =
     (case deref w current of
        None \<Rightarrow> Some Undefined
      | Some n \<Rightarrow>
         if nextp n \<noteq> pos then
           (case nextp n of
              None \<Rightarrow> Some Undefined
            | Some c' \<Rightarrow>
               (case deref w c' of
                  None \<Rightarrow> Some Undefined
                | Some n' \<Rightarrow>
                   if nextp n' = None then Some (Throw ''Position not found.'' w)
                   else erase_before_loop w pos (Some current) c'))
         else Some (Return (prev, current) w))"

text \<open>
  \<open>prev->next = std::move(current->next)\<close> empties \<open>current->next\<close>, stores the
  pointer in \<open>prev->next\<close> and lets go of what \<open>prev->next\<close> owned, the node
  \<open>current\<close>.
\<close>

definition erase_before ::
  "lid \<Rightarrow> addr option \<Rightarrow> 'a world \<Rightarrow> (unit, 'a world) outcome option" where
  "erase_before this pos w =
     (case head (objs w this) of
        None \<Rightarrow> Some (Throw ''Cannot erase before the first element.'' w)
      | Some h \<Rightarrow>
         if pos = Some h then Some (Throw ''Cannot erase before the first element.'' w)
         else
           (case erase_before_loop w pos None h of
              None \<Rightarrow> None
            | Some (Return (None, current) w1) \<Rightarrow> Some (Return () w1)
            | Some (Return (Some prev, current) w1) \<Rightarrow>
               (case (deref w1 prev, deref w1 current) of
                  (Some pn, Some cn) \<Rightarrow>
                    (case release (nextp pn)
                            (set_next prev (nextp cn) (set_next current None w1)) of
                       Return _ w2 \<Rightarrow>
                         (case deref w2 prev of
                            None \<Rightarrow> Some Undefined
                          | Some pn' \<Rightarrow>
                             Some (Return () (decr_size this
                               (if nextp pn' = None then set_tail this (Some prev) w2 else w2))))
                     | Throw m w2 \<Rightarrow> Some (Throw m w2)
                     | Undefined \<Rightarrow> Some Undefined)
                | _ \<Rightarrow> Some Undefined)
            | Some (Throw m w1) \<Rightarrow> Some (Throw m w1)
            | Some Undefined \<Rightarrow> Some Undefined))"

subsection \<open>Filling a list from a sequence, copying and moving\<close>

text \<open>
  The range constructor, the initializer-list constructor and every container
  assignment run \<open>push_back\<close> over the given sequence in order.
\<close>

fun push_back_all :: "lid \<Rightarrow> 'a list \<Rightarrow> 'a world \<Rightarrow> (unit, 'a world) outcome" where
  "push_back_all this [] w = Return () w"
| "push_back_all this (x # xs) w =
     (case push_back this x w of
        Return _ w1 \<Rightarrow> push_back_all this xs w1
      | Throw m w1 \<Rightarrow> Throw m w1
      | Undefined \<Rightarrow> Undefined)"

definition ctor_init :: "lid \<Rightarrow> 'a list \<Rightarrow> 'a world \<Rightarrow> (unit, 'a world) outcome" where
  "ctor_init this initList w = push_back_all this initList (ctor this w)"

definition assign_vector :: "lid \<Rightarrow> 'a list \<Rightarrow> 'a world \<Rightarrow> (unit, 'a world) outcome" where
  "assign_vector this vec w =
     (case clear this w of
        Return _ w1 \<Rightarrow> push_back_all this vec w1
      | Throw m w1 \<Rightarrow> Throw m w1
      | Undefined \<Rightarrow> Undefined)"

partial_function (option) copy_loop ::
  "lid \<Rightarrow> addr option \<Rightarrow> 'a world \<Rightarrow> (unit, 'a world) outcome option" where
  "copy_loop this current w =
     (case current of
        None \<Rightarrow> Some (Return () w)
      | Some c \<Rightarrow>
         (case deref w c of
            None \<Rightarrow> Some Undefined
          | Some n \<Rightarrow>
             (case push_back this (data n) w of
                Return _ w1 \<Rightarrow>
                  (case deref w1 c of
                     None \<Rightarrow> Some Undefined
                   | Some n1 \<Rightarrow> copy_loop this (nextp n1) w1)
              | Throw m w1 \<Rightarrow> Some (Throw m w1)
              | Undefined \<Rightarrow> Some Undefined)))"

definition copy_ctor :: "lid \<Rightarrow> lid \<Rightarrow> 'a world \<Rightarrow> (unit, 'a world) outcome option" where
  "copy_ctor this other w =
     (let w0 = ctor this w in
      if this \<noteq> other then
        (case clear this w0 of
           Return _ w1 \<Rightarrow> copy_loop this (head (objs w1 other)) w1
         | Throw m w1 \<Rightarrow> Some (Throw m w1)
         | Undefined \<Rightarrow> Some Undefined)
      else Some (Return () w0))"

text \<open>
  Moving out of \<open>other.head\<close> leaves it null. The initialisers and assignments run in
  the order of the source, so the model also says what happens under aliasing.
\<close>

definition move_ctor :: "lid \<Rightarrow> lid \<Rightarrow> 'a world \<Rightarrow> 'a world" where
  "move_ctor this other w =
     (let w1 = set_head other None (set_head this (head (objs w other)) w);
          w2 = set_tail this (tail (objs w1 other)) w1;
          w3 = set_size this (list_size (objs w2 other)) w2
      in set_size other 0 (set_tail other None w3))"

definition move_assign :: "lid \<Rightarrow> lid \<Rightarrow> 'a world \<Rightarrow> (unit, 'a world) outcome" where
  "move_assign this other w =
     (if this \<noteq> other then
        (let old = head (objs w this);
             w1 = set_head this (head (objs w other)) (set_head other None w)
         in case release old w1 of
              Return _ w2 \<Rightarrow>
                (let w3 = set_tail this (tail (objs w2 other)) w2;
                     w4 = set_size this (list_size (objs w3 other)) w3
                 in Return () (set_size other 0 (set_tail other None w4)))
            | Throw m w2 \<Rightarrow> Throw m w2
            | Undefined \<Rightarrow> Undefined)
      else Return () w)"

subsection \<open>Conversions\<close>

text \<open>
  The range-based \<open>for\<close> over the list starts at \<open>head.get()\<close>, stops at null and
  advances through \<open>next\<close>. \<open>vec.reserve(list_size)\<close> only sets the capacity of
  the vector and is left out, as allocation failure is throughout.
\<close>

partial_function (option) to_vector_loop ::
  "'a world \<Rightarrow> addr option \<Rightarrow> 'a list \<Rightarrow> ('a list, 'a world) outcome option" where
  "to_vector_loop w current vec =
     (case current of
        None \<Rightarrow> Some (Return vec w)
      | Some c \<Rightarrow>
         (case deref w c of
            None \<Rightarrow> Some Undefined
          | Some n \<Rightarrow> to_vector_loop w (nextp n) (vec @ [data n])))"

definition to_vector :: "lid \<Rightarrow> 'a world \<Rightarrow> ('a list, 'a world) outcome option" where
  "to_vector this w = to_vector_loop w (head (objs w this)) []"

text \<open>
  \<open>std::array<T, N> arr;\<close> starts with whatever default-initialisation of \<open>T\<close>
  leaves in each slot: the parameter \<open>init\<close>, by index. \<open>dflt\<close> is the value \<open>T()\<close>.
  \<open>arr.fill(T())\<close> assigns \<open>T()\<close> to every slot of the array.
\<close>

partial_function (option) to_array_pad_loop ::
  "'a world \<Rightarrow> nat \<Rightarrow> addr option \<Rightarrow> nat \<Rightarrow> 'a list \<Rightarrow>
     (nat \<times> 'a list, 'a world) outcome option" where
  "to_array_pad_loop w N current i arr =
     (case current of
        None \<Rightarrow> Some (Return (i, arr) w)
      | Some c \<Rightarrow>
         (case deref w c of
            None \<Rightarrow> Some Undefined
          | Some n \<Rightarrow>
             if i \<ge> N then Some (Throw ''List size exceeds array size.'' w)
             else to_array_pad_loop w N (nextp n) (Suc i) (arr[i := data n])))"

definition to_array_pad ::
  "nat \<Rightarrow> 'a \<Rightarrow> (nat \<Rightarrow> 'a) \<Rightarrow> lid \<Rightarrow> 'a world \<Rightarrow> ('a list, 'a world) outcome option" where
  "to_array_pad N dflt init this w =
     (if N < 1 then Some (Throw ''Array size must be a positive integer.'' w)
      else
        (case to_array_pad_loop w N (head (objs w this)) 0 (map init [0..<N]) of
           None \<Rightarrow> None
         | Some (Return (i, arr) w1) \<Rightarrow>
             Some (Return (if i < N then replicate N dflt else arr) w1)
         | Some (Throw m w1) \<Rightarrow> Some (Throw m w1)
         | Some Undefined \<Rightarrow> Some Undefined))"

text \<open>The loops run by their recursion equations.\<close>

declare pop_back_loop.simps [code]
declare insert_before_loop.simps [code]
declare erase_before_loop.simps [code]
declare copy_loop.simps [code]
declare to_vector_loop.simps [code]
declare to_array_pad_loop.simps [code]

section \<open>The sequence a list object represents\<close>

text \<open>
  \<open>lseg w p ns q\<close>: starting at pointer \<open>p\<close> and following \<open>next\<close>, one passes exactly
  the nodes \<open>ns\<close> (address and stored value, in order) and arrives at \<open>q\<close>.
\<close>

fun lseg :: "'a world \<Rightarrow> addr option \<Rightarrow> (addr \<times> 'a) list \<Rightarrow> addr option \<Rightarrow> bool" where
  "lseg w p [] q = (p = q)"
| "lseg w p (ax # ns) q =
     (p = Some (fst ax) \<and>
      (case deref w (fst ax) of
         None \<Rightarrow> False
       | Some n \<Rightarrow> data n = snd ax \<and> lseg w (nextp n) ns q))"

abbreviation addrs :: "(addr \<times> 'a) list \<Rightarrow> addr list" where
  "addrs ns \<equiv> map fst ns"

abbreviation elems :: "(addr \<times> 'a) list \<Rightarrow> 'a list" where
  "elems ns \<equiv> map snd ns"

text \<open>
  \<open>wf_list w l ns\<close>: the object \<open>l\<close> is a well-formed list over the nodes \<open>ns\<close>: its
  chain runs from \<open>head\<close> through \<open>ns\<close> to null without repeating a node, \<open>tail\<close> is
  the last node, and \<open>list_size\<close> is the number of nodes.
\<close>

definition wf_list :: "'a world \<Rightarrow> lid \<Rightarrow> (addr \<times> 'a) list \<Rightarrow> bool" where
  "wf_list w l ns \<longleftrightarrow>
     lseg w (head (objs w l)) ns None \<and> distinct (addrs ns) \<and>
     list_size (objs w l) = length ns \<and>
     tail (objs w l) = (if ns = [] then None else Some (fst (last ns)))"

text \<open>
  \<open>touches w A l w'\<close>: going from \<open>w\<close> to \<open>w'\<close> changed no list object other than \<open>l\<close> and
  no node that existed in \<open>w\<close> outside \<open>A\<close>.
\<close>

definition touches :: "'a world \<Rightarrow> addr set \<Rightarrow> lid \<Rightarrow> 'a world \<Rightarrow> bool" where
  "touches w A l w' \<longleftrightarrow>
     fresh w \<le> fresh w' \<and>
     (\<forall>a. a < fresh w \<and> a \<notin> A \<longrightarrow> cells w' a = cells w a) \<and>
     (\<forall>l'. l' \<noteq> l \<longrightarrow> objs w' l' = objs w l')"

section \<open>Vocabulary of the claims\<close>

text \<open>A world with no node and every list object empty, to run examples in.\<close>

definition empty_world :: "'a world" where
  "empty_world =
     \<lparr>cells = (\<lambda>_. None), fresh = 0,
      objs = (\<lambda>_. \<lparr>head = None, tail = None, list_size = 0\<rparr>)\<rparr>"

text \<open>The world a call leaves, for writing examples.\<close>

definition world_of :: "('r, 'a world) outcome \<Rightarrow> 'a world" where
  "world_of r = (case r of Return _ w \<Rightarrow> w | Throw _ w \<Rightarrow> w | Undefined \<Rightarrow> empty_world)"

definition world_of_opt :: "('r, 'a world) outcome option \<Rightarrow> 'a world" where
  "world_of_opt r = (case r of None \<Rightarrow> empty_world | Some x \<Rightarrow> world_of x)"

text \<open>
  The list \<open>{1}\<close> after \<open>insert_before(nullptr, 2)\<close>, as object 0 of an otherwise
  empty world.
\<close>

definition stale_tail_world :: "int world" where
  "stale_tail_world =
     world_of_opt (insert_before 0 None 2 (world_of (ctor_init 0 [1] empty_world)))"

text \<open>
  The code throws \<open>std::runtime_error\<close> throughout and tells failures apart by their
  message only. The error kinds are those of the specification, matched to the messages.
\<close>

datatype error_kind =
  EmptyContainer | PositionNotFound | InvalidOperation | InvalidSize | LengthMismatch

definition kind_of :: "string \<Rightarrow> error_kind option" where
  "kind_of m =
     (if m = ''List is empty: cannot pop back.'' \<or> m = ''List is empty: cannot pop front.'' \<or>
         m = ''List is empty: cannot access head.'' \<or> m = ''List is empty: cannot access tail.''
      then Some EmptyContainer
      else if m = ''Position not found.'' then Some PositionNotFound
      else if m = ''Cannot erase before the first element.'' then Some InvalidOperation
      else if m = ''Array size must be a positive integer.'' then Some InvalidSize
      else if m = ''List size exceeds array size.'' \<or> m = ''Array size exceeds list size.''
      then Some LengthMismatch
      else None)"

text \<open>Following \<open>next\<close> links \<open>k\<close> times from a pointer.\<close>

fun follow :: "'a world \<Rightarrow> nat \<Rightarrow> addr option \<Rightarrow> addr option" where
  "follow w 0 p = p"
| "follow w (Suc k) p =
     (case p of
        None \<Rightarrow> None
      | Some a \<Rightarrow> (case deref w a of None \<Rightarrow> None | Some n \<Rightarrow> follow w k (nextp n)))"

text \<open>
  The structural invariants of the data model: \<open>size = 0\<close> exactly when \<open>head\<close> is
  null, exactly when \<open>tail\<close> is null; \<open>tail\<close> is reached from \<open>head\<close> in exactly
  \<open>size - 1\<close> steps; and the \<open>next\<close> of \<open>tail\<close> is null.
\<close>

definition invariants :: "lid \<Rightarrow> 'a world \<Rightarrow> bool" where
  "invariants l w =
     (let s = objs w l in
      (list_size s = 0) = (head s = None) \<and>
      (head s = None) = (tail s = None) \<and>
      (case tail s of
         None \<Rightarrow> True
       | Some t \<Rightarrow>
          0 < list_size s \<and> follow w (list_size s - 1) (head s) = Some t \<and>
          (case deref w t of None \<Rightarrow> False | Some n \<Rightarrow> nextp n = None)))"

text \<open>
  Modelled from the spec: \<open>operator==\<close> is missing from the header under src/; only the
  test program calls it. The specification reads: two lists are equal iff same size and
  elementwise-equal in traversal order. The traversal is the one of \<open>to_vector\<close>.
\<close>

definition traversal :: "lid \<Rightarrow> 'a world \<Rightarrow> 'a list option" where
  "traversal l w = (case to_vector l w of Some (Return xs _) \<Rightarrow> Some xs | _ \<Rightarrow> None)"

definition equality :: "lid \<Rightarrow> lid \<Rightarrow> 'a world \<Rightarrow> bool" where
  "equality a b w \<longleftrightarrow> size_sll a w = size_sll b w \<and> traversal a w = traversal b w"

text \<open>
  Sequences of calls on one list object. A run stops at the first call that throws, as
  the exception would end the calling code.
\<close>

datatype 'a op = Append 'a | Prepend 'a | RemoveFirst | RemoveLast

fun apply_op :: "lid \<Rightarrow> 'a op \<Rightarrow> 'a world \<Rightarrow> (unit, 'a world) outcome option" where
  "apply_op l (Append v) w = Some (push_back l v w)"
| "apply_op l (Prepend v) w = Some (push_front l v w)"
| "apply_op l RemoveFirst w = Some (pop_front l w)"
| "apply_op l RemoveLast w = pop_back l w"

fun run_ops :: "lid \<Rightarrow> 'a op list \<Rightarrow> 'a world \<Rightarrow> (unit, 'a world) outcome option" where
  "run_ops l [] w = Some (Return () w)"
| "run_ops l (x # xs) w =
     (case apply_op l x w of
        Some (Return _ w1) \<Rightarrow> run_ops l xs w1
      | r \<Rightarrow> r)"

fun is_add :: "'a op \<Rightarrow> bool" where
  "is_add (Append v) = True"
| "is_add (Prepend v) = True"
| "is_add RemoveFirst = False"
| "is_add RemoveLast = False"

definition adds :: "'a op list \<Rightarrow> nat" where
  "adds ops = length (filter is_add ops)"

definition removes :: "'a op list \<Rightarrow> nat" where
  "removes ops = length (filter (\<lambda>x. \<not> is_add x) ops)"

text \<open>What the calls do to the sequence of values; \<open>None\<close> when a removal finds it empty.\<close>

fun seq_op :: "'a op \<Rightarrow> 'a list \<Rightarrow> 'a list option" where
  "seq_op (Append v) xs = Some (xs @ [v])"
| "seq_op (Prepend v) xs = Some (v # xs)"
| "seq_op RemoveFirst xs = (case xs of [] \<Rightarrow> None | _ # ys \<Rightarrow> Some ys)"
| "seq_op RemoveLast xs = (case xs of [] \<Rightarrow> None | _ # _ \<Rightarrow> Some (butlast xs))"

fun seq_ops :: "'a op list \<Rightarrow> 'a list \<Rightarrow> 'a list option" where
  "seq_ops [] xs = Some xs"
| "seq_ops (x # ops) xs = (case seq_op x xs of None \<Rightarrow> None | Some ys \<Rightarrow> seq_ops ops ys)"

text \<open>
  Mutations of a copy: the calls above and \<open>clear\<close>. Here a call that throws is caught
  and the run goes on from the world the throw left, so that every sequence is covered.
\<close>

datatype 'a mutation = Call "'a op" | ClearAll

fun apply_mutation :: "lid \<Rightarrow> 'a mutation \<Rightarrow> 'a world \<Rightarrow> (unit, 'a world) outcome option" where
  "apply_mutation l (Call x) w = apply_op l x w"
| "apply_mutation l ClearAll w = Some (clear l w)"

fun after_mutations :: "lid \<Rightarrow> 'a mutation list \<Rightarrow> 'a world \<Rightarrow> 'a world option" where
  "after_mutations l [] w = Some w"
| "after_mutations l (m # ms) w =
     (case apply_mutation l m w of
        Some (Return _ w1) \<Rightarrow> after_mutations l ms w1
      | Some (Throw _ w1) \<Rightarrow> after_mutations l ms w1
      | _ \<Rightarrow> None)"

section \<open>Reasoning about worlds\<close>

lemma set_head_simps [simp]:
  "fresh (set_head l p w) = fresh w" "cells (set_head l p w) = cells w"
  "deref (set_head l p w) = deref w"
  "objs (set_head l p w) l' = (if l' = l then (objs w l)\<lparr>head := p\<rparr> else objs w l')"
  by (auto simp: set_head_def deref_def)

lemma set_tail_simps [simp]:
  "fresh (set_tail l p w) = fresh w" "cells (set_tail l p w) = cells w"
  "deref (set_tail l p w) = deref w"
  "objs (set_tail l p w) l' = (if l' = l then (objs w l)\<lparr>tail := p\<rparr> else objs w l')"
  by (auto simp: set_tail_def deref_def)

lemma set_size_simps [simp]:
  "fresh (set_size l k w) = fresh w" "cells (set_size l k w) = cells w"
  "deref (set_size l k w) = deref w"
  "objs (set_size l k w) l' = (if l' = l then (objs w l)\<lparr>list_size := k\<rparr> else objs w l')"
  by (auto simp: set_size_def deref_def)

lemma incr_size_simps [simp]:
  "fresh (incr_size l w) = fresh w" "cells (incr_size l w) = cells w"
  "deref (incr_size l w) = deref w"
  "objs (incr_size l w) l' =
     (if l' = l then (objs w l)\<lparr>list_size := Suc (list_size (objs w l))\<rparr> else objs w l')"
  by (auto simp: incr_size_def)

lemma decr_size_simps [simp]:
  "fresh (decr_size l w) = fresh w" "cells (decr_size l w) = cells w"
  "deref (decr_size l w) = deref w"
  "objs (decr_size l w) l' =
     (if l' = l then (objs w l)\<lparr>list_size := size_dec (list_size (objs w l))\<rparr> else objs w l')"
  by (auto simp: decr_size_def)

lemma set_next_simps [simp]:
  "fresh (set_next a p w) = fresh w" "objs (set_next a p w) = objs w"
  "cells (set_next a p w) b =
     (if b = a then map_option (\<lambda>n. n\<lparr>nextp := p\<rparr>) (cells w a) else cells w b)"
  "deref (set_next a p w) b =
     (if b = a then map_option (\<lambda>n. n\<lparr>nextp := p\<rparr>) (deref w a) else deref w b)"
  by (auto simp: set_next_def deref_def)

lemma make_node_simps [simp]:
  "fst (make_node v w) = fresh w"
  "fresh (snd (make_node v w)) = Suc (fresh w)" "objs (snd (make_node v w)) = objs w"
  "cells (snd (make_node v w)) b =
     (if b = fresh w then Some \<lparr>data = v, nextp = None\<rparr> else cells w b)"
  "deref (snd (make_node v w)) b =
     (if b = fresh w then Some \<lparr>data = v, nextp = None\<rparr> else deref w b)"
  by (auto simp: make_node_def deref_def)

lemma free_simps [simp]:
  "deref (w\<lparr>cells := (cells w)(a := None)\<rparr>) b = (if b = a then None else deref w b)"
  by (auto simp: deref_def)

lemma ctor_simps [simp]:
  "fresh (ctor l w) = fresh w" "cells (ctor l w) = cells w" "deref (ctor l w) = deref w"
  "objs (ctor l w) l' =
     (if l' = l then \<lparr>head = None, tail = None, list_size = 0\<rparr> else objs w l')"
  by (auto simp: ctor_def deref_def)

lemma empty_world_simps [simp]:
  "fresh empty_world = 0" "cells empty_world a = None" "deref empty_world a = None"
  "objs empty_world l = \<lparr>head = None, tail = None, list_size = 0\<rparr>"
  by (auto simp: empty_world_def deref_def)

lemma deref_cells_update:
  "deref (w\<lparr>cells := c\<rparr>) b = (if b < fresh w then c b else None)"
  by (simp add: deref_def)

lemmas stale_defs = stale_tail_world_def world_of_opt_def world_of_def

lemmas eval_defs = ctor_init_def push_back_def push_front_def
  pop_front_def pop_back_def case_prod_beta getHead_def getTail_def size_sll_def
  to_vector_def to_array_pad_def insert_before_def erase_before_def reset_next_def
  clear_def size_dec_def

lemma deref_less: "deref w a = Some n \<Longrightarrow> a < fresh w"
  by (auto simp: deref_def split: if_splits)

lemma lseg_live: "lseg w p ns q \<Longrightarrow> a \<in> set (addrs ns) \<Longrightarrow> a < fresh w"
  by (induction ns arbitrary: p) (auto dest: deref_less split: option.splits)

lemma lseg_cong:
  "(\<And>a. a \<in> set (addrs ns) \<Longrightarrow> deref w' a = deref w a) \<Longrightarrow> lseg w' p ns q = lseg w p ns q"
  by (induction ns arbitrary: p) (auto split: option.splits)

lemma lseg_deref_eq: "deref w' = deref w \<Longrightarrow> lseg w' p ns q = lseg w p ns q"
  by (rule lseg_cong) simp

lemma lseg_setters [simp]:
  "lseg (set_head l x w) = lseg w" "lseg (set_tail l x w) = lseg w"
  "lseg (set_size l k w) = lseg w" "lseg (incr_size l w) = lseg w"
  "lseg (decr_size l w) = lseg w" "lseg (ctor l w) = lseg w"
  by (intro ext lseg_deref_eq, simp)+

lemma lseg_append:
  "lseg w p (ns @ ms) q = (\<exists>r. lseg w p ns r \<and> lseg w r ms q)"
  by (induction ns arbitrary: p) (auto split: option.splits)

lemma lseg_snoc:
  "lseg w p (ns @ [ax]) q =
     (lseg w p ns (Some (fst ax)) \<and>
      (case deref w (fst ax) of None \<Rightarrow> False | Some n \<Rightarrow> data n = snd ax \<and> nextp n = q))"
  by (auto simp: lseg_append split: option.splits)

lemma lseg_unique:
  "lseg w p ns None \<Longrightarrow> lseg w p ms None \<Longrightarrow> ns = ms"
proof (induction ns arbitrary: p ms)
  case Nil
  then show ?case by (cases ms) auto
next
  case (Cons ax ns)
  then obtain bx ms' where ms: "ms = bx # ms'" by (cases ms) auto
  from Cons.prems(1) obtain n where n: "p = Some (fst ax)" "deref w (fst ax) = Some n"
    "data n = snd ax" "lseg w (nextp n) ns None"
    by (auto split: option.splits)
  from Cons.prems(2) obtain m where m: "p = Some (fst bx)" "deref w (fst bx) = Some m"
    "data m = snd bx" "lseg w (nextp m) ms' None"
    unfolding ms by (auto split: option.splits)
  from n(1) m(1) have e: "fst bx = fst ax" by simp
  with n(2) m(2) have mn: "m = n" by simp
  from Cons.IH [OF n(4)] m(4) mn have "ns = ms'" by simp
  moreover from e n(3) m(3) mn have "ax = bx" by (simp add: prod_eq_iff)
  ultimately show ?case using ms by simp
qed

lemma lseg_distinct:
  "lseg w p ns None \<Longrightarrow> distinct (addrs ns)"
proof (induction ns arbitrary: p)
  case Nil
  then show ?case by simp
next
  case (Cons ax ns)
  then obtain n where n: "deref w (fst ax) = Some n" "lseg w (nextp n) ns None"
    by (auto split: option.splits)
  have "fst ax \<notin> set (addrs ns)"
  proof
    assume "fst ax \<in> set (addrs ns)"
    then obtain bx where "bx \<in> set ns" "fst bx = fst ax" by auto
    then obtain ns1 ns2 where sp: "ns = ns1 @ bx # ns2" "fst bx = fst ax"
      by (auto dest: split_list)
    with n(2) obtain r where "lseg w r (bx # ns2) None"
      unfolding sp(1) lseg_append by blast
    with sp(2) n(1) have "lseg w (nextp n) ns2 None" by (auto split: option.splits)
    from lseg_unique [OF n(2) this] sp(1) show False by simp
  qed
  with Cons.IH [OF n(2)] show ?case by simp
qed

lemma lseg_to_Some: "lseg w p ns (Some t) \<Longrightarrow> p \<noteq> None"
  by (cases ns) auto

lemma follow_lseg:
  "lseg w p ms q \<Longrightarrow> follow w (length ms) p = q"
  by (induction ms arbitrary: p) (auto split: option.splits)

lemma touches_deref:
  assumes "touches w A l w'" and "a < fresh w" and "a \<notin> A"
  shows "deref w' a = deref w a"
proof -
  from assms have "fresh w \<le> fresh w'" and "cells w' a = cells w a"
    unfolding touches_def by blast+
  with assms(2) show ?thesis unfolding deref_def by simp
qed

lemma lseg_touches:
  assumes "touches w A l w'" and "lseg w p ns q" and "set (addrs ns) \<inter> A = {}"
  shows "lseg w' p ns q"
proof -
  have "deref w' a = deref w a" if "a \<in> set (addrs ns)" for a
  proof -
    from lseg_live [OF assms(2) that] have "a < fresh w" .
    moreover from that assms(3) have "a \<notin> A" by blast
    ultimately show ?thesis using assms(1) by (rule touches_deref [rotated])
  qed
  then have "lseg w' p ns q = lseg w p ns q" by (rule lseg_cong)
  with assms(2) show ?thesis by simp
qed

lemma touches_mono: "touches w A l w' \<Longrightarrow> A \<subseteq> B \<Longrightarrow> touches w B l w'"
  unfolding touches_def by blast

lemma touches_refl: "touches w A l w"
  unfolding touches_def by simp

lemma touches_trans:
  assumes "touches w A l w1" and "touches w1 B l w2"
  shows "touches w (A \<union> B) l w2"
proof -
  have "cells w2 a = cells w a" if "a < fresh w" "a \<notin> A \<union> B" for a
  proof -
    from that assms(1) have "cells w1 a = cells w a" "a < fresh w1"
      unfolding touches_def by auto
    moreover from that this(2) assms(2) have "cells w2 a = cells w1 a"
      unfolding touches_def by auto
    ultimately show ?thesis by simp
  qed
  moreover have "fresh w \<le> fresh w2" using assms unfolding touches_def by auto
  moreover have "objs w2 l' = objs w l'" if "l' \<noteq> l" for l'
    using assms that unfolding touches_def by auto
  ultimately show ?thesis unfolding touches_def by blast
qed

lemma touches_trans_fresh:
  assumes "touches w A l w1" and "touches w1 B l w2" and "\<And>a. a \<in> B \<Longrightarrow> a \<in> A \<or> fresh w \<le> a"
  shows "touches w A l w2"
proof -
  have "touches w (A \<union> B) l w2" using assms(1,2) by (rule touches_trans)
  moreover have "cells w2 a = cells w a" if "a < fresh w" "a \<notin> A" for a
  proof -
    from that assms(3) [of a] have "a \<notin> A \<union> B" by auto
    with \<open>touches w (A \<union> B) l w2\<close> that(1) show ?thesis unfolding touches_def by blast
  qed
  ultimately show ?thesis unfolding touches_def by blast
qed

lemma release_lseg:
  "lseg w p ns None \<Longrightarrow> distinct (addrs ns) \<Longrightarrow>
   \<exists>w'. release p w = Return () w' \<and> fresh w' = fresh w \<and> objs w' = objs w \<and>
        (\<forall>a. cells w' a = (if a \<in> set (addrs ns) then None else cells w a))"
proof (induction ns arbitrary: p w)
  case Nil
  then show ?case by simp
next
  case (Cons ax ns)
  then obtain n where n: "p = Some (fst ax)" "deref w (fst ax) = Some n" "lseg w (nextp n) ns None"
    by (auto split: option.splits)
  let ?w1 = "w\<lparr>cells := (cells w)(fst ax := None)\<rparr>"
  have notin: "fst ax \<notin> set (addrs ns)" and dist: "distinct (addrs ns)"
    using Cons.prems(2) by simp_all
  have "lseg ?w1 (nextp n) ns None = lseg w (nextp n) ns None"
  proof (intro lseg_cong)
    fix a assume "a \<in> set (addrs ns)"
    with notin have "a \<noteq> fst ax" by blast
    then show "deref ?w1 a = deref w a" by simp
  qed
  with n(3) have "lseg ?w1 (nextp n) ns None" by simp
  from Cons.IH [OF this dist] obtain w' where w':
    "release (nextp n) ?w1 = Return () w'" "fresh w' = fresh ?w1" "objs w' = objs ?w1"
    "\<And>a. cells w' a = (if a \<in> set (addrs ns) then None else cells ?w1 a)"
    by blast
  have "release p w = Return () w'" using n(1,2) w'(1) by simp
  moreover have "fresh w' = fresh w" "objs w' = objs w" using w'(2,3) by simp_all
  moreover have "cells w' a = (if a \<in> set (addrs (ax # ns)) then None else cells w a)" for a
    using w'(4) [of a] by simp
  ultimately show ?case by blast
qed

lemma wf_listD:
  assumes "wf_list w l ns"
  shows "lseg w (head (objs w l)) ns None" "distinct (addrs ns)"
    "list_size (objs w l) = length ns"
    "tail (objs w l) = (if ns = [] then None else Some (fst (last ns)))"
  using assms unfolding wf_list_def by blast+

lemma wf_list_empty_iff:
  "wf_list w l [] \<longleftrightarrow> objs w l = \<lparr>head = None, tail = None, list_size = 0\<rparr>"
  by (cases "objs w l") (auto simp: wf_list_def)

lemma wf_frame:
  assumes "wf_list w a ns" and "touches w A b w'" and "a \<noteq> b" and "set (addrs ns) \<inter> A = {}"
  shows "wf_list w' a ns"
proof -
  note wf = wf_listD [OF assms(1)]
  have o: "objs w' a = objs w a" using assms(2,3) unfolding touches_def by blast
  have "lseg w' (head (objs w a)) ns None" using assms(2) wf(1) assms(4) by (rule lseg_touches)
  then show ?thesis using wf(2,3,4) o unfolding wf_list_def by simp
qed

lemma wf_list_invariants:
  assumes "wf_list w l ns"
  shows "invariants l w"
proof (cases ns rule: rev_cases)
  case Nil
  with assms show ?thesis by (simp add: wf_list_def invariants_def)
next
  case (snoc ms ax)
  note wf = wf_listD [OF assms]
  from wf(1) snoc obtain n where
    seg: "lseg w (head (objs w l)) ms (Some (fst ax))" and
    n: "deref w (fst ax) = Some n" "nextp n = None"
    by (auto simp: lseg_snoc split: option.splits)
  have hd: "head (objs w l) \<noteq> None" using seg by (cases ms) auto
  have "follow w (length ms) (head (objs w l)) = Some (fst ax)" using seg by (rule follow_lseg)
  then show ?thesis using wf(3,4) snoc n hd by (simp add: invariants_def)
qed

section \<open>Well-formed lists under the member functions\<close>

lemma to_vector_loop_lseg:
  "lseg w p ns None \<Longrightarrow> to_vector_loop w p acc = Some (Return (acc @ elems ns) w)"
proof (induction ns arbitrary: p acc)
  case Nil
  then show ?case by (simp add: to_vector_loop.simps)
next
  case (Cons ax ns)
  then show ?case
    by (subst to_vector_loop.simps) (auto split: option.splits)
qed

lemma to_vector_wf: "wf_list w l ns \<Longrightarrow> to_vector l w = Some (Return (elems ns) w)"
  using to_vector_loop_lseg [of w "head (objs w l)" ns "[]"]
  by (simp add: wf_list_def to_vector_def)

lemma to_vector_loop_chain_aux:
  assumes "to_vector_loop w p acc = Some r"
  shows "\<forall>ys w'. r = Return ys w' \<longrightarrow> (\<exists>ns. lseg w p ns None \<and> ys = acc @ elems ns)"
  using assms
proof (induction w p acc r rule: to_vector_loop.raw_induct [rotated, consumes 1])
  case (1 f w cur vec r)
  show ?case
  proof (cases cur)
    case None
    with 1(2) have "r = Return vec w" by simp
    then show ?thesis using None by (auto intro: exI [of _ "[]"])
  next
    case (Some c)
    show ?thesis
    proof (cases "deref w c")
      case None
      with 1(2) Some have "r = Undefined" by simp
      then show ?thesis by simp
    next
      case (Some n)
      with 1(2) \<open>cur = Some c\<close> have "f w (nextp n) (vec @ [data n]) = Some r" by simp
      from 1(1) [OF this] have ih:
        "\<forall>ys w'. r = Return ys w' \<longrightarrow>
           (\<exists>ns. lseg w (nextp n) ns None \<and> ys = (vec @ [data n]) @ elems ns)" .
      show ?thesis
      proof (intro allI impI)
        fix ys w' assume "r = Return ys w'"
        with ih obtain ns where ns: "lseg w (nextp n) ns None" "ys = (vec @ [data n]) @ elems ns"
          by blast
        have "lseg w cur ((c, data n) # ns) None" using ns(1) Some \<open>cur = Some c\<close> by simp
        moreover have "ys = vec @ elems ((c, data n) # ns)" using ns(2) by simp
        ultimately show "\<exists>ns. lseg w cur ns None \<and> ys = vec @ elems ns" by blast
      qed
    qed
  qed
qed

lemma to_vector_chain:
  assumes "to_vector l w = Some (Return xs w')"
  shows "\<exists>ns. lseg w (head (objs w l)) ns None \<and> elems ns = xs"
  using to_vector_loop_chain_aux [of w "head (objs w l)" "[]" "Return xs w'"] assms
  by (auto simp: to_vector_def)

lemma getHead_wf:
  assumes "wf_list w l ns" and "ns \<noteq> []"
  shows "getHead l w = Return (hd (elems ns)) w"
proof -
  from assms(2) obtain ax ms where ns: "ns = ax # ms" by (cases ns) auto
  with wf_listD(1) [OF assms(1)] show ?thesis
    by (auto simp: getHead_def split: option.splits)
qed

lemma getTail_wf:
  assumes "wf_list w l ns" and "ns \<noteq> []"
  shows "getTail l w = Return (last (elems ns)) w"
proof -
  from assms(2) obtain ms ax where ns: "ns = ms @ [ax]" by (cases ns rule: rev_cases) auto
  with wf_listD(1,4) [OF assms(1)] show ?thesis
    by (auto simp: getTail_def lseg_snoc split: option.splits)
qed

lemma push_back_wf:
  assumes "wf_list w l ns"
  shows "\<exists>w'. push_back l v w = Return () w' \<and> wf_list w' l (ns @ [(fresh w, v)]) \<and>
              touches w (set (addrs ns)) l w' \<and> fresh w' = Suc (fresh w)"
proof (cases ns rule: rev_cases)
  case Nil
  then show ?thesis using assms
    by (simp add: wf_list_def push_back_def case_prod_beta touches_def)
next
  case (snoc ms ax)
  with assms obtain n where
    seg: "lseg w (head (objs w l)) ms (Some (fst ax))" and
    n: "deref w (fst ax) = Some n" "data n = snd ax" "nextp n = None" and
    d: "distinct (addrs ms)" "fst ax \<notin> set (addrs ms)" and
    sz: "list_size (objs w l) = Suc (length ms)" and
    tl: "tail (objs w l) = Some (fst ax)"
    by (auto simp: wf_list_def lseg_snoc split: option.splits)
  have lt: "fst ax < fresh w" using deref_less [OF n(1)] .
  have fr: "fresh w \<notin> set (addrs ms)" using lseg_live [OF seg, of "fresh w"] by blast
  obtain h where hd: "head (objs w l) = Some h" using seg tl by (cases ms) auto
  let ?w' = "incr_size l (set_tail l (Some (fresh w))
               (set_next (fst ax) (Some (fresh w)) (snd (make_node v w))))"
  have run: "push_back l v w = Return () ?w'"
    using hd tl n lt by (simp add: push_back_def case_prod_beta)
  have t: "touches w {fst ax} l ?w'"
    unfolding touches_def by simp
  have seg': "lseg ?w' (Some h) ms (Some (fst ax))"
    using lseg_touches [OF t seg] d(2) hd by simp
  have "wf_list ?w' l (ns @ [(fresh w, v)])"
    unfolding wf_list_def
  proof (intro conjI)
    have "lseg ?w' (Some (fst ax)) [ax, (fresh w, v)] None"
      using n lt by simp
    with seg' have "lseg ?w' (Some h) (ms @ [ax, (fresh w, v)]) None"
      unfolding lseg_append by blast
    then show "lseg ?w' (head (objs ?w' l)) (ns @ [(fresh w, v)]) None"
      using hd snoc by simp
    show "distinct (addrs (ns @ [(fresh w, v)]))" using d lt fr snoc by auto
    show "list_size (objs ?w' l) = length (ns @ [(fresh w, v)])" using sz snoc by simp
    show "tail (objs ?w' l) =
      (if ns @ [(fresh w, v)] = [] then None else Some (fst (last (ns @ [(fresh w, v)]))))"
      by simp
  qed
  moreover have "touches w (set (addrs ns)) l ?w'"
    using t snoc by (intro touches_mono [OF t]) simp
  moreover have "fresh ?w' = Suc (fresh w)"
    by simp
  ultimately show ?thesis using run by blast
qed

lemma push_front_wf:
  assumes "wf_list w l ns"
  shows "\<exists>w'. push_front l v w = Return () w' \<and> wf_list w' l ((fresh w, v) # ns) \<and>
              touches w {} l w' \<and> fresh w' = Suc (fresh w)"
proof (cases ns)
  case Nil
  then show ?thesis using assms
    by (simp add: wf_list_def push_front_def case_prod_beta touches_def)
next
  case (Cons ax ms)
  note wf = wf_listD [OF assms]
  from wf(1) Cons have hd: "head (objs w l) = Some (fst ax)" by simp
  have fr: "fresh w \<notin> set (addrs ns)" using lseg_live [OF wf(1), of "fresh w"] by blast
  let ?w' = "incr_size l (set_head l (Some (fresh w))
               (set_next (fresh w) (Some (fst ax)) (snd (make_node v w))))"
  have run: "push_front l v w = Return () ?w'"
    using hd by (simp add: push_front_def case_prod_beta)
  have t: "touches w {} l ?w'" unfolding touches_def by simp
  have seg': "lseg ?w' (Some (fst ax)) ns None"
    using lseg_touches [OF t wf(1)] hd by simp
  have "wf_list ?w' l ((fresh w, v) # ns)"
    unfolding wf_list_def
  proof (intro conjI)
    show "lseg ?w' (head (objs ?w' l)) ((fresh w, v) # ns) None" using seg' by simp
    show "distinct (addrs ((fresh w, v) # ns))" using wf(2) fr by simp
    show "list_size (objs ?w' l) = length ((fresh w, v) # ns)" using wf(3) by simp
    show "tail (objs ?w' l) =
      (if (fresh w, v) # ns = [] then None else Some (fst (last ((fresh w, v) # ns))))"
      using wf(4) Cons by simp
  qed
  moreover have "fresh ?w' = Suc (fresh w)" by simp
  ultimately show ?thesis using run t by blast
qed

lemma pop_front_wf:
  assumes "wf_list w l (ax # ns)"
  shows "\<exists>w'. pop_front l w = Return () w' \<and> wf_list w' l ns \<and>
              touches w {fst ax} l w' \<and> fresh w' = fresh w"
proof -
  note wf = wf_listD [OF assms]
  from wf(1) obtain n where
    hd: "head (objs w l) = Some (fst ax)" and
    n: "deref w (fst ax) = Some n" "lseg w (nextp n) ns None"
    by (auto split: option.splits)
  have notin: "fst ax \<notin> set (addrs ns)" using wf(2) by simp
  let ?w0 = "w\<lparr>cells := (cells w)(fst ax := None)\<rparr>"
  let ?w1 = "set_head l (nextp n) ?w0"
  let ?w2 = "if nextp n = None then set_tail l None ?w1 else ?w1"
  let ?w' = "decr_size l ?w2"
  have run: "pop_front l w = Return () ?w'"
    using hd n(1) by (simp add: pop_front_def Let_def)
  have t: "touches w {fst ax} l ?w'" unfolding touches_def by simp
  have seg': "lseg ?w' (nextp n) ns None"
    using lseg_touches [OF t n(2)] notin by simp
  have nil: "ns = [] \<longleftrightarrow> nextp n = None" using n(2) by (cases ns) auto
  have "wf_list ?w' l ns"
    unfolding wf_list_def
  proof (intro conjI)
    show "lseg ?w' (head (objs ?w' l)) ns None"
      using seg' by (cases "nextp n") simp_all
    show "distinct (addrs ns)" using wf(2) by simp
    show "list_size (objs ?w' l) = length ns" using wf(3) by (simp add: size_dec_def)
    show "tail (objs ?w' l) = (if ns = [] then None else Some (fst (last ns)))"
      using wf(4) nil by simp
  qed
  moreover have "fresh ?w' = fresh w" by simp
  ultimately show ?thesis using run t by blast
qed

lemma clear_wf:
  assumes "wf_list w l ns"
  shows "\<exists>w'. clear l w = Return () w' \<and> wf_list w' l [] \<and>
              touches w (set (addrs ns)) l w' \<and> fresh w' = fresh w"
proof -
  note wf = wf_listD [OF assms]
  let ?w0 = "set_head l None w"
  have "lseg ?w0 (head (objs w l)) ns None"
    using wf(1) by simp
  from release_lseg [OF this wf(2)] obtain w1 where w1:
    "release (head (objs w l)) ?w0 = Return () w1" "fresh w1 = fresh ?w0" "objs w1 = objs ?w0"
    "\<And>a. cells w1 a = (if a \<in> set (addrs ns) then None else cells ?w0 a)"
    by blast
  let ?w' = "set_size l 0 (set_tail l None w1)"
  have run: "clear l w = Return () ?w'" using w1(1) by (simp add: clear_def)
  have "wf_list ?w' l []" using w1(3) by (simp add: wf_list_def)
  moreover have "touches w (set (addrs ns)) l ?w'"
    unfolding touches_def using w1(2,3,4) by simp
  moreover have "fresh ?w' = fresh w" using w1(2) by simp
  ultimately show ?thesis using run by blast
qed

lemma pop_back_loop_lseg:
  "lseg w p (ms @ [cx]) tgt \<Longrightarrow> tgt \<notin> Some ` set (addrs (ms @ [cx])) \<Longrightarrow>
   pop_back_loop w tgt p = Some (Return (fst cx) w)"
proof (induction ms arbitrary: p)
  case Nil
  then show ?case
    by (subst pop_back_loop.simps) (auto split: option.splits)
next
  case (Cons m ms)
  then obtain n where n: "p = Some (fst m)" "deref w (fst m) = Some n"
    "lseg w (nextp n) (ms @ [cx]) tgt"
    by (auto split: option.splits)
  from n(3) have "nextp n = Some (hd (addrs (ms @ [cx])))" by (cases ms) auto
  with Cons.prems(2) have ne: "nextp n \<noteq> tgt" by (cases ms) auto
  from Cons.prems(2) have "tgt \<notin> Some ` set (addrs (ms @ [cx]))" by auto
  from Cons.IH [OF n(3) this] show ?case
    using n(1,2) ne by (subst pop_back_loop.simps) simp
qed

lemma pop_back_wf:
  assumes "wf_list w l (ms @ [ax])"
  shows "\<exists>w'. pop_back l w = Some (Return () w') \<and> wf_list w' l ms \<and>
              touches w (set (addrs (ms @ [ax]))) l w' \<and> fresh w' = fresh w"
proof (cases ms rule: rev_cases)
  case Nil
  note wf = wf_listD [OF assms]
  from wf(1,4) Nil have ht: "head (objs w l) = Some (fst ax)" "tail (objs w l) = Some (fst ax)"
    by auto
  let ?w0 = "set_head l None w"
  have "lseg ?w0 (head (objs w l)) [ax] None" using wf(1) Nil by simp
  from release_lseg [OF this] obtain w1 where w1:
    "release (head (objs w l)) ?w0 = Return () w1" "fresh w1 = fresh ?w0" "objs w1 = objs ?w0"
    "\<And>a. cells w1 a = (if a \<in> set (addrs [ax]) then None else cells ?w0 a)"
    by auto
  let ?w' = "decr_size l (set_tail l None w1)"
  have run: "pop_back l w = Some (Return () ?w')"
    using ht w1(1) by (simp add: pop_back_def)
  have "wf_list ?w' l ms" using w1(3) wf(3) Nil by (simp add: wf_list_def size_dec_def)
  moreover have "touches w (set (addrs (ms @ [ax]))) l ?w'"
    unfolding touches_def using w1(2,3,4) by simp
  moreover have "fresh ?w' = fresh w" using w1(2) by simp
  ultimately show ?thesis using run by blast
next
  case (snoc ms' cx)
  note wf = wf_listD [OF assms]
  let ?c = "fst cx" and ?a = "fst ax"
  from wf(1) snoc obtain cn an where
    seg: "lseg w (head (objs w l)) ms' (Some ?c)" and
    cn: "deref w ?c = Some cn" "data cn = snd cx" "nextp cn = Some ?a" and
    an: "deref w ?a = Some an" "data an = snd ax" "nextp an = None"
    by (auto simp: lseg_append split: option.splits)
  from wf(2) snoc have d: "distinct (addrs ms')" "?c \<notin> set (addrs ms')" "?a \<notin> set (addrs ms')"
    "?a \<noteq> ?c" by auto
  from wf(4) have tl: "tail (objs w l) = Some ?a" by simp
  have hd: "head (objs w l) \<noteq> tail (objs w l)"
    using seg tl d(3,4) by (cases ms') auto
  obtain h where h: "head (objs w l) = Some h" using seg by (cases ms') auto
  have "lseg w (head (objs w l)) (ms' @ [cx]) (Some ?a)"
    using seg cn by (simp add: lseg_snoc)
  moreover have "Some ?a \<notin> Some ` set (addrs (ms' @ [cx]))" using d by auto
  ultimately have loop: "pop_back_loop w (Some ?a) (head (objs w l)) = Some (Return ?c w)"
    by (rule pop_back_loop_lseg)
  let ?w0 = "set_next ?c None w"
  have "lseg ?w0 (Some ?a) [ax] None" using an d(4) by simp
  from release_lseg [OF this] obtain w1 where w1:
    "release (Some ?a) ?w0 = Return () w1" "fresh w1 = fresh ?w0" "objs w1 = objs ?w0"
    "\<And>a. cells w1 a = (if a \<in> set (addrs [ax]) then None else cells ?w0 a)"
    by auto
  let ?w' = "decr_size l (set_tail l (Some ?c) w1)"
  have run: "pop_back l w = Some (Return () ?w')"
    using h hd tl loop cn w1(1) by (simp add: pop_back_def reset_next_def)
  have t: "touches w {?c, ?a} l ?w'"
    unfolding touches_def using w1(2,3,4) by simp
  have seg': "lseg ?w' (Some h) ms' (Some ?c)"
    using lseg_touches [OF t seg] d(2,3) h by simp
  have dc: "deref ?w' ?c = Some (cn\<lparr>nextp := None\<rparr>)"
    using cn(1) d(4) w1(2,4) deref_less [OF cn(1)] by (simp add: deref_def)
  have "wf_list ?w' l ms"
    unfolding wf_list_def
  proof (intro conjI)
    show "lseg ?w' (head (objs ?w' l)) ms None"
      using seg' dc cn(2) h w1(3) snoc by (simp add: lseg_snoc)
    show "distinct (addrs ms)" using wf(2) by simp
    show "list_size (objs ?w' l) = length ms" using wf(3) w1(3) by (simp add: size_dec_def)
    show "tail (objs ?w' l) = (if ms = [] then None else Some (fst (last ms)))"
      using snoc by simp
  qed
  moreover have "touches w (set (addrs (ms @ [ax]))) l ?w'"
    using snoc by (intro touches_mono [OF t]) simp
  moreover have "fresh ?w' = fresh w" using w1(2) by simp
  ultimately show ?thesis using run by blast
qed

lemma remove_from_empty:
  assumes "wf_list w l []"
  shows "pop_front l w = Throw ''List is empty: cannot pop front.'' w"
    and "pop_back l w = Some (Throw ''List is empty: cannot pop back.'' w)"
  using assms by (simp_all add: wf_list_def pop_front_def pop_back_def)

lemma push_back_all_wf:
  "wf_list w l ns \<Longrightarrow>
   \<exists>w' ms. push_back_all l xs w = Return () w' \<and> wf_list w' l (ns @ ms) \<and> elems ms = xs \<and>
           touches w (set (addrs ns)) l w' \<and> (\<forall>a \<in> set (addrs ms). fresh w \<le> a)"
proof (induction xs arbitrary: w ns)
  case Nil
  have "push_back_all l [] w = Return () w" by simp
  moreover have "wf_list w l (ns @ [])" using Nil by simp
  moreover have "touches w (set (addrs ns)) l w" by (rule touches_refl)
  ultimately show ?case by (intro exI [of _ w] exI [of _ "[]"]) simp
next
  case (Cons x xs)
  from push_back_wf [OF Cons.prems, of x] obtain w1 where w1:
    "push_back l x w = Return () w1" "wf_list w1 l (ns @ [(fresh w, x)])"
    "touches w (set (addrs ns)) l w1" "fresh w1 = Suc (fresh w)"
    by blast
  from Cons.IH [OF w1(2)] obtain w' ms where w':
    "push_back_all l xs w1 = Return () w'" "wf_list w' l ((ns @ [(fresh w, x)]) @ ms)"
    "elems ms = xs" "touches w1 (set (addrs (ns @ [(fresh w, x)]))) l w'"
    "\<forall>a \<in> set (addrs ms). fresh w1 \<le> a"
    by blast
  let ?ms = "(fresh w, x) # ms"
  have "push_back_all l (x # xs) w = Return () w'" using w1(1) w'(1) by simp
  moreover have "wf_list w' l (ns @ ?ms)" using w'(2) by simp
  moreover have "elems ?ms = x # xs" using w'(3) by simp
  moreover have "touches w (set (addrs ns)) l w'"
    using w1(3) w'(4) by (rule touches_trans_fresh) auto
  moreover have "\<forall>a \<in> set (addrs ?ms). fresh w \<le> a" using w'(5) w1(4) by auto
  ultimately show ?case by - (rule exI [of _ w'], rule exI [of _ ?ms], simp)
qed

lemma assign_vector_wf:
  assumes "wf_list w l ns"
  shows "\<exists>w' ms. assign_vector l vec w = Return () w' \<and> wf_list w' l ms \<and> elems ms = vec \<and>
           touches w (set (addrs ns)) l w' \<and> (\<forall>a \<in> set (addrs ms). fresh w \<le> a)"
proof -
  from clear_wf [OF assms] obtain w1 where w1:
    "clear l w = Return () w1" "wf_list w1 l []" "touches w (set (addrs ns)) l w1"
    "fresh w1 = fresh w"
    by blast
  from push_back_all_wf [OF w1(2), of vec] obtain w' ms where w':
    "push_back_all l vec w1 = Return () w'" "wf_list w' l ms" "elems ms = vec"
    "touches w1 {} l w'" "\<forall>a \<in> set (addrs ms). fresh w1 \<le> a"
    by auto
  have "assign_vector l vec w = Return () w'" using w1(1) w'(1) by (simp add: assign_vector_def)
  moreover have "touches w (set (addrs ns)) l w'"
    using w1(3) w'(4) by (rule touches_trans_fresh) simp
  ultimately show ?thesis using w'(2,3,5) w1(4)
    by - (rule exI [of _ w'], rule exI [of _ ms], simp)
qed

lemma ctor_init_wf:
  "\<exists>w' ms. ctor_init l xs w = Return () w' \<and> wf_list w' l ms \<and> elems ms = xs \<and>
           touches w {} l w' \<and> (\<forall>a \<in> set (addrs ms). fresh w \<le> a)"
proof -
  have "wf_list (ctor l w) l []" by (simp add: wf_list_def)
  from push_back_all_wf [OF this, of xs] obtain w' ms where w':
    "push_back_all l xs (ctor l w) = Return () w'" "wf_list w' l ms" "elems ms = xs"
    "touches (ctor l w) {} l w'" "\<forall>a \<in> set (addrs ms). fresh (ctor l w) \<le> a"
    by auto
  have "touches w {} l (ctor l w)" unfolding touches_def by simp
  then have "touches w {} l w'" using w'(4) by (rule touches_trans_fresh) simp
  then show ?thesis using w'
    by - (rule exI [of _ w'], rule exI [of _ ms], simp add: ctor_init_def)
qed

lemma insert_before_loop_lseg:
  "lseg w p (ms @ [cx]) tgt \<Longrightarrow> tgt \<notin> Some ` set (addrs (ms @ [cx])) \<Longrightarrow>
   insert_before_loop w tgt p = Some (Return (Some (fst cx)) w)"
proof (induction ms arbitrary: p)
  case Nil
  then show ?case
    by (subst insert_before_loop.simps) (auto split: option.splits)
next
  case (Cons m ms)
  then obtain n where n: "p = Some (fst m)" "deref w (fst m) = Some n"
    "lseg w (nextp n) (ms @ [cx]) tgt"
    by (auto split: option.splits)
  from n(3) have "nextp n = Some (hd (addrs (ms @ [cx])))" by (cases ms) auto
  with Cons.prems(2) have ne: "nextp n \<noteq> tgt" by (cases ms) auto
  from Cons.prems(2) have "tgt \<notin> Some ` set (addrs (ms @ [cx]))" by auto
  from Cons.IH [OF n(3) this] show ?case
    using n(1,2) ne by (subst insert_before_loop.simps) simp
qed

lemma insert_before_null_chain:
  assumes "lseg w (head (objs w l)) (ms @ [cx]) None"
  shows "\<exists>w'. insert_before l None v w = Some (Return () w') \<and>
              lseg w' (head (objs w' l)) (ms @ [cx, (fresh w, v)]) None \<and>
              objs w' l = (objs w l)\<lparr>list_size := Suc (list_size (objs w l))\<rparr> \<and>
              deref w' (fst cx) = Some \<lparr>data = snd cx, nextp = Some (fresh w)\<rparr> \<and>
              touches w {fst cx} l w' \<and> fresh w' = Suc (fresh w)"
proof -
  let ?c = "fst cx"
  from assms obtain cn where
    seg: "lseg w (head (objs w l)) ms (Some ?c)" and
    cn: "deref w ?c = Some cn" "data cn = snd cx" "nextp cn = None"
    by (auto simp: lseg_snoc split: option.splits)
  obtain h where h: "head (objs w l) = Some h" using seg by (cases ms) auto
  have lt: "?c < fresh w" using deref_less [OF cn(1)] .
  have "None \<notin> Some ` set (addrs (ms @ [cx]))" by auto
  from insert_before_loop_lseg [OF assms this]
  have loop: "insert_before_loop w None (head (objs w l)) = Some (Return (Some ?c) w)" .
  let ?w2 = "snd (make_node v w)"
  let ?w3 = "set_next ?c None (set_next (fresh w) None ?w2)"
  let ?w4 = "set_next ?c (Some (fresh w)) ?w3"
  define w5 where "w5 =
    (if Some (fresh w) = tail (objs w l) then set_tail l (Some (fresh w)) ?w4 else ?w4)"
  have run: "insert_before l None v w = Some (Return () (incr_size l w5))"
    using h loop cn lt by (simp add: insert_before_def case_prod_beta Let_def w5_def)
  have w5: "fresh w5 = Suc (fresh w)" "cells w5 = cells ?w4" "deref w5 = deref ?w4"
    "objs w5 = objs w"
    by (auto simp: w5_def fun_eq_iff)
  define w' where "w' = incr_size l w5"
  have o: "objs w' l = (objs w l)\<lparr>list_size := Suc (list_size (objs w l))\<rparr>"
    and f: "fresh w' = Suc (fresh w)"
    by (simp_all add: w'_def w5)
  have t: "touches w {?c} l w'" unfolding touches_def w'_def by (simp add: w5)
  have notin: "?c \<notin> set (addrs ms)" using lseg_distinct [OF assms] by simp
  have seg': "lseg w' (Some h) ms (Some ?c)"
    using lseg_touches [OF t seg] notin h by simp
  have dc: "deref w' ?c = Some \<lparr>data = snd cx, nextp = Some (fresh w)\<rparr>"
    unfolding w'_def using cn lt by (cases cn) (simp add: w5)
  have dn: "deref w' (fresh w) = Some \<lparr>data = v, nextp = None\<rparr>"
    unfolding w'_def using lt by (simp add: w5)
  have "lseg w' (Some ?c) [cx, (fresh w, v)] None" using dc dn by simp
  with seg' have "lseg w' (Some h) (ms @ [cx, (fresh w, v)]) None"
    unfolding lseg_append by blast
  then have "lseg w' (head (objs w' l)) (ms @ [cx, (fresh w, v)]) None"
    using h o by simp
  moreover have "insert_before l None v w = Some (Return () w')"
    using run unfolding w'_def .
  ultimately show ?thesis using o f dc t by blast
qed

lemma insert_before_head:
  "insert_before l (head (objs w l)) v w = Some (push_front l v w)"
  by (simp add: insert_before_def)

lemma insert_before_interior:
  assumes "wf_list w l (pre @ [cx, tx] @ post)"
  shows "\<exists>w'. insert_before l (Some (fst tx)) v w = Some (Return () w') \<and>
              wf_list w' l (pre @ [cx, (fresh w, v), tx] @ post) \<and>
              touches w {fst cx} l w' \<and> fresh w' = Suc (fresh w)"
proof -
  note wf = wf_listD [OF assms]
  let ?c = "fst cx" and ?t = "fst tx" and ?n = "fresh w"
  from wf(1) obtain r where r: "lseg w (head (objs w l)) (pre @ [cx]) r"
    "lseg w r (tx # post) None"
    using lseg_append [of w "head (objs w l)" "pre @ [cx]" "tx # post" None] by auto
  from r(2) have rt: "r = Some ?t" by simp
  obtain h where h: "head (objs w l) = Some h" "h = hd (addrs (pre @ [cx]))"
    using r(1) by (cases pre) auto
  from wf(2) have d: "?c \<notin> set (addrs pre)" "?t \<notin> set (addrs pre)" "?c \<noteq> ?t"
    "?c \<notin> set (addrs post)" "?t \<notin> set (addrs post)"
    by auto
  from r(1) rt obtain cn where
    segp: "lseg w (Some h) pre (Some ?c)" and
    cn: "deref w ?c = Some cn" "data cn = snd cx" "nextp cn = Some ?t"
    using h(1) by (auto simp: lseg_snoc split: option.splits)
  have hne: "Some ?t \<noteq> Some h" using h(2) d(2,3) by (cases pre) auto
  have lt: "?c < ?n" using deref_less [OF cn(1)] .
  have fr: "?n \<notin> set (addrs (pre @ [cx, tx] @ post))"
    using lseg_live [OF wf(1), of ?n] by blast
  have "lseg w (Some h) (pre @ [cx]) (Some ?t)" using r(1) rt h(1) by simp
  moreover have "Some ?t \<notin> Some ` set (addrs (pre @ [cx]))" using d by auto
  ultimately have loop: "insert_before_loop w (Some ?t) (Some h) = Some (Return (Some ?c) w)"
    by (rule insert_before_loop_lseg)
  have tl: "tail (objs w l) \<noteq> Some ?n"
  proof -
    from wf(4) have "tail (objs w l) = Some (fst (last (pre @ [cx, tx] @ post)))" by simp
    moreover have "fst (last (pre @ [cx, tx] @ post)) \<in> set (addrs (pre @ [cx, tx] @ post))"
      by (metis last_in_set last_map map_is_Nil_conv append_is_Nil_conv list.distinct(1))
    ultimately show ?thesis using fr by auto
  qed
  let ?w2 = "snd (make_node v w)"
  let ?w3 = "set_next ?c None (set_next ?n (Some ?t) ?w2)"
  let ?w4 = "set_next ?c (Some ?n) ?w3"
  have run: "insert_before l (Some ?t) v w = Some (Return () (incr_size l ?w4))"
    using h(1) hne loop cn lt tl by (simp add: insert_before_def case_prod_beta Let_def)
  define w' where "w' = incr_size l ?w4"
  have t: "touches w {?c} l w'" unfolding touches_def w'_def by simp
  have o: "objs w' l = (objs w l)\<lparr>list_size := Suc (list_size (objs w l))\<rparr>"
    and f: "fresh w' = Suc (fresh w)"
    by (simp_all add: w'_def)
  have dc: "deref w' ?c = Some \<lparr>data = snd cx, nextp = Some ?n\<rparr>"
    unfolding w'_def using cn lt by (cases cn) simp
  have dn: "deref w' ?n = Some \<lparr>data = v, nextp = Some ?t\<rparr>"
    unfolding w'_def using lt by simp
  have seg1: "lseg w' (Some h) pre (Some ?c)"
    using lseg_touches [OF t segp] d(1) by simp
  have seg2: "lseg w' (Some ?t) (tx # post) None"
    using lseg_touches [OF t r(2) [unfolded rt]] d(3,4) by simp
  have "lseg w' (Some ?c) [cx, (?n, v)] (Some ?t)" using dc dn by simp
  with seg1 seg2 have "lseg w' (Some h) (pre @ [cx, (?n, v)] @ tx # post) None"
    unfolding lseg_append by blast
  then have s: "lseg w' (head (objs w' l)) (pre @ [cx, (?n, v), tx] @ post) None"
    using h(1) o by simp
  have "wf_list w' l (pre @ [cx, (?n, v), tx] @ post)"
    unfolding wf_list_def
  proof (intro conjI)
    show "lseg w' (head (objs w' l)) (pre @ [cx, (?n, v), tx] @ post) None" by (rule s)
    show "distinct (addrs (pre @ [cx, (?n, v), tx] @ post))" using wf(2) fr by auto
    show "list_size (objs w' l) = length (pre @ [cx, (?n, v), tx] @ post)"
      using wf(3) o by simp
    show "tail (objs w' l) =
      (if pre @ [cx, (?n, v), tx] @ post = [] then None
       else Some (fst (last (pre @ [cx, (?n, v), tx] @ post))))"
      using wf(4) o by simp
  qed
  moreover have "insert_before l (Some ?t) v w = Some (Return () w')"
    using run unfolding w'_def .
  ultimately show ?thesis using t f by blast
qed

lemma erase_before_loop_lseg:
  "lseg w (Some c) (ms @ [cx]) (Some t) \<Longrightarrow> Some t \<notin> Some ` set (addrs (ms @ [cx])) \<Longrightarrow>
   erase_before_loop w (Some t) prev c =
     Some (Return (if ms = [] then prev else Some (fst (last ms)), fst cx) w)"
proof (induction ms arbitrary: c prev)
  case Nil
  then show ?case
    by (subst erase_before_loop.simps) (auto split: option.splits)
next
  case (Cons m ms)
  then obtain n where n: "c = fst m" "deref w c = Some n"
    "lseg w (nextp n) (ms @ [cx]) (Some t)"
    by (auto split: option.splits)
  obtain c' where c': "nextp n = Some c'" "c' = hd (addrs (ms @ [cx]))"
    using n(3) by (cases ms) auto
  from Cons.prems(2) c' have ne: "nextp n \<noteq> Some t" by (cases ms) auto
  from n(3) c'(1) obtain n' where n': "deref w c' = Some n'" "nextp n' \<noteq> None"
    by (cases ms) (auto split: option.splits dest: lseg_to_Some)
  from Cons.prems(2) have "Some t \<notin> Some ` set (addrs (ms @ [cx]))" by auto
  from Cons.IH [OF _ this, of c' "Some c"] n(3) c'(1)
  have "erase_before_loop w (Some t) (Some c) c' =
     Some (Return (if ms = [] then Some c else Some (fst (last ms)), fst cx) w)"
    by simp
  then show ?case
    using n(1,2) c'(1) ne n' by (subst erase_before_loop.simps) auto
qed

lemma erase_before_first:
  assumes "wf_list w l ns" and "pos = head (objs w l) \<or> ns = []"
  shows "erase_before l pos w = Some (Throw ''Cannot erase before the first element.'' w)"
proof (cases ns)
  case Nil
  with assms(1) show ?thesis by (simp add: wf_list_def erase_before_def)
next
  case (Cons ax ms)
  with wf_listD(1) [OF assms(1)] have "head (objs w l) = Some (fst ax)" by simp
  with assms(2) Cons show ?thesis by (simp add: erase_before_def)
qed

lemma erase_before_second:
  assumes "wf_list w l (ax # tx # post)"
  shows "erase_before l (Some (fst tx)) w = Some (Return () w)"
proof -
  note wf = wf_listD [OF assms]
  from wf(1) obtain n where n: "head (objs w l) = Some (fst ax)" "deref w (fst ax) = Some n"
    "nextp n = Some (fst tx)"
    by (auto split: option.splits)
  have ne: "fst tx \<noteq> fst ax" using wf(2) by auto
  have "erase_before_loop w (Some (fst tx)) None (fst ax) = Some (Return (None, fst ax) w)"
    using n by (subst erase_before_loop.simps) simp
  then show ?thesis using n(1) ne by (simp add: erase_before_def)
qed

lemma erase_before_interior:
  assumes "wf_list w l (pre @ [px, cx, tx] @ post)"
  shows "\<exists>w'. erase_before l (Some (fst tx)) w = Some (Return () w') \<and>
              wf_list w' l (pre @ [px, tx] @ post) \<and>
              touches w {fst px, fst cx} l w' \<and> fresh w' = fresh w"
proof -
  note wf = wf_listD [OF assms]
  let ?p = "fst px" and ?c = "fst cx" and ?t = "fst tx"
  from wf(1) obtain r where r: "lseg w (head (objs w l)) (pre @ [px, cx]) r"
    "lseg w r (tx # post) None"
    using lseg_append [of w "head (objs w l)" "pre @ [px, cx]" "tx # post" None] by auto
  from r(2) have rt: "r = Some ?t" by simp
  obtain h where h: "head (objs w l) = Some h" "h = hd (addrs (pre @ [px]))"
    using r(1) by (cases pre) auto
  from wf(2) have d: "distinct (addrs pre)" "?p \<notin> set (addrs pre)" "?c \<notin> set (addrs pre)"
    "?t \<notin> set (addrs pre)" "?p \<noteq> ?c" "?p \<noteq> ?t" "?c \<noteq> ?t"
    "?p \<notin> set (addrs post)" "?c \<notin> set (addrs post)" "?t \<notin> set (addrs post)"
    "set (addrs pre) \<inter> set (addrs post) = {}" "distinct (addrs post)"
    by auto
  from r(1) rt obtain pn cn where
    segp: "lseg w (Some h) pre (Some ?p)" and
    pn: "deref w ?p = Some pn" "data pn = snd px" "nextp pn = Some ?c" and
    cn: "deref w ?c = Some cn" "data cn = snd cx" "nextp cn = Some ?t"
    using h(1) by (auto simp: lseg_append split: option.splits)
  have hne: "Some ?t \<noteq> Some h" using h(2) d(4,6) by (cases pre) auto
  have "lseg w (Some h) ((pre @ [px]) @ [cx]) (Some ?t)" using r(1) rt h(1) by simp
  moreover have "Some ?t \<notin> Some ` set (addrs ((pre @ [px]) @ [cx]))" using d by auto
  ultimately have loop: "erase_before_loop w (Some ?t) None h = Some (Return (Some ?p, ?c) w)"
    using erase_before_loop_lseg [of w h "pre @ [px]" cx ?t None] by simp
  let ?w0 = "set_next ?p (Some ?t) (set_next ?c None w)"
  have "lseg ?w0 (Some ?c) [cx] None" using cn d(5) by simp
  from release_lseg [OF this] obtain w2 where w2:
    "release (Some ?c) ?w0 = Return () w2" "fresh w2 = fresh ?w0" "objs w2 = objs ?w0"
    "\<And>a. cells w2 a = (if a \<in> set (addrs [cx]) then None else cells ?w0 a)"
    by auto
  have dp: "deref w2 ?p = Some (pn\<lparr>nextp := Some ?t\<rparr>)"
    using pn(1) d(5) w2(2,4) deref_less [OF pn(1)] by (simp add: deref_def)
  let ?w' = "decr_size l w2"
  have run: "erase_before l (Some ?t) w = Some (Return () ?w')"
    using h(1) hne loop pn(1,3) cn(1,3) d(5) w2(1) dp by (simp add: erase_before_def)
  have t: "touches w {?p, ?c} l ?w'"
    unfolding touches_def using w2(2,3,4) by simp
  have seg1: "lseg ?w' (Some h) pre (Some ?p)"
    using lseg_touches [OF t segp] d(2,3) by simp
  have seg2: "lseg ?w' (Some ?t) (tx # post) None"
    using lseg_touches [OF t r(2) [unfolded rt]] d(6,7,8,9) by simp
  have dp': "deref ?w' ?p = Some (pn\<lparr>nextp := Some ?t\<rparr>)" using dp by simp
  have "lseg ?w' (Some ?p) [px] (Some ?t)" using dp' pn(2) by simp
  with seg1 seg2 have "lseg ?w' (Some h) (pre @ [px] @ tx # post) None"
    unfolding lseg_append by blast
  then have s: "lseg ?w' (head (objs ?w' l)) (pre @ [px, tx] @ post) None"
    using h(1) w2(3) by simp
  have "wf_list ?w' l (pre @ [px, tx] @ post)"
    unfolding wf_list_def
  proof (intro conjI)
    show "lseg ?w' (head (objs ?w' l)) (pre @ [px, tx] @ post) None" by (rule s)
    show "distinct (addrs (pre @ [px, tx] @ post))" using wf(2) by auto
    show "list_size (objs ?w' l) = length (pre @ [px, tx] @ post)"
      using wf(3) w2(3) by (simp add: size_dec_def)
    show "tail (objs ?w' l) =
      (if pre @ [px, tx] @ post = [] then None else Some (fst (last (pre @ [px, tx] @ post))))"
      using wf(4) w2(3) by simp
  qed
  moreover have "fresh ?w' = fresh w" using w2(2) by simp
  ultimately show ?thesis using run t by blast
qed

lemma to_array_pad_loop_lseg:
  "lseg w p ns None \<Longrightarrow> i + length ns \<le> N \<Longrightarrow>
   \<exists>arr'. to_array_pad_loop w N p i arr = Some (Return (i + length ns, arr') w)"
proof (induction ns arbitrary: p i arr)
  case Nil
  then show ?case by (subst to_array_pad_loop.simps) simp
next
  case (Cons ax ns)
  from Cons.prems(1) obtain n where n: "p = Some (fst ax)" "deref w (fst ax) = Some n"
    "lseg w (nextp n) ns None"
    by (auto split: option.splits)
  from Cons.prems(2) have "Suc i + length ns \<le> N" "\<not> N \<le> i" by simp_all
  from Cons.IH [OF n(3) this(1), of "arr[i := data n]"] this(2) n(1,2) show ?case
    by (subst to_array_pad_loop.simps) simp
qed

lemma to_array_pad_short:
  assumes "wf_list w l ns" and "length ns < N"
  shows "to_array_pad N dflt init l w = Some (Return (replicate N dflt) w)"
proof -
  from to_array_pad_loop_lseg [OF wf_listD(1) [OF assms(1)], of 0 N "map init [0..<N]"] assms(2)
  obtain arr' where
    "to_array_pad_loop w N (head (objs w l)) 0 (map init [0..<N]) = Some (Return (length ns, arr') w)"
    by auto
  with assms(2) show ?thesis by (simp add: to_array_pad_def)
qed

lemma copy_loop_wf:
  "lseg w cur rest None \<Longrightarrow> wf_list w this ms \<Longrightarrow> set (addrs rest) \<inter> set (addrs ms) = {} \<Longrightarrow>
   \<exists>w' ks. copy_loop this cur w = Some (Return () w') \<and> wf_list w' this (ms @ ks) \<and>
           elems ks = elems rest \<and> touches w (set (addrs ms)) this w' \<and>
           (\<forall>a \<in> set (addrs ks). fresh w \<le> a)"
proof (induction rest arbitrary: cur w ms)
  case Nil
  then have "copy_loop this cur w = Some (Return () w)"
    by (subst copy_loop.simps) simp
  moreover have "touches w (set (addrs ms)) this w" by (rule touches_refl)
  ultimately show ?case using Nil.prems(2)
    by - (rule exI [of _ w], rule exI [of _ "[]"], simp)
next
  case (Cons ax rest)
  let ?a = "fst ax"
  from Cons.prems(1) obtain n where n:
    "cur = Some ?a" "deref w ?a = Some n" "data n = snd ax" "lseg w (nextp n) rest None"
    by (auto split: option.splits)
  from push_back_wf [OF Cons.prems(2), of "data n"] obtain w1 where w1:
    "push_back this (data n) w = Return () w1" "wf_list w1 this (ms @ [(fresh w, data n)])"
    "touches w (set (addrs ms)) this w1" "fresh w1 = Suc (fresh w)"
    by blast
  have lt: "?a < fresh w" using deref_less [OF n(2)] .
  have na: "?a \<notin> set (addrs ms)" using Cons.prems(3) by auto
  have d1: "deref w1 ?a = Some n" using touches_deref [OF w1(3) lt na] n(2) by simp
  have dj: "set (addrs rest) \<inter> set (addrs ms) = {}" using Cons.prems(3) by auto
  have seg1: "lseg w1 (nextp n) rest None" using w1(3) n(4) dj by (rule lseg_touches)
  have fr: "fresh w \<notin> set (addrs rest)" using lseg_live [OF n(4), of "fresh w"] by blast
  have dj1: "set (addrs rest) \<inter> set (addrs (ms @ [(fresh w, data n)])) = {}"
    using dj fr by auto
  from Cons.IH [OF seg1 w1(2) dj1] obtain w' ks where w':
    "copy_loop this (nextp n) w1 = Some (Return () w')"
    "wf_list w' this ((ms @ [(fresh w, data n)]) @ ks)" "elems ks = elems rest"
    "touches w1 (set (addrs (ms @ [(fresh w, data n)]))) this w'"
    "\<forall>a \<in> set (addrs ks). fresh w1 \<le> a"
    by blast
  let ?ks = "(fresh w, data n) # ks"
  have "copy_loop this cur w = Some (Return () w')"
    using n(1,2) w1(1) d1 w'(1) by (subst copy_loop.simps) simp
  moreover have "wf_list w' this (ms @ ?ks)" using w'(2) by simp
  moreover have "elems ?ks = elems (ax # rest)" using w'(3) n(3) by simp
  moreover have "touches w (set (addrs ms)) this w'"
    using w1(3) w'(4) by (rule touches_trans_fresh) auto
  moreover have "\<forall>a \<in> set (addrs ?ks). fresh w \<le> a" using w'(5) w1(4) by auto
  ultimately show ?case by - (rule exI [of _ w'], rule exI [of _ ?ks], simp)
qed

lemma copy_ctor_wf:
  assumes "wf_list w a ns" and "a \<noteq> b"
  shows "\<exists>w' ms. copy_ctor b a w = Some (Return () w') \<and> wf_list w' b ms \<and>
           elems ms = elems ns \<and> wf_list w' a ns \<and> set (addrs ns) \<inter> set (addrs ms) = {}"
proof -
  let ?w0 = "ctor b w"
  have e0: "wf_list ?w0 b []" by (simp add: wf_list_def)
  have t0: "touches w {} b ?w0" unfolding touches_def by simp
  from clear_wf [OF e0] obtain w1 where w1:
    "clear b ?w0 = Return () w1" "wf_list w1 b []" "touches ?w0 {} b w1"
    by auto
  have t1: "touches w {} b w1" using t0 w1(3) by (rule touches_trans_fresh) simp
  have a1: "wf_list w1 a ns" using assms(1) t1 assms(2) by (rule wf_frame) simp
  have o1: "objs w1 a = objs w a" using t1 assms(2) unfolding touches_def by blast
  from copy_loop_wf [OF wf_listD(1) [OF a1] w1(2)] obtain w' ks where w':
    "copy_loop b (head (objs w1 a)) w1 = Some (Return () w')" "wf_list w' b ([] @ ks)"
    "elems ks = elems ns" "touches w1 (set (addrs ([] :: (addr \<times> 'a) list))) b w'"
    "\<forall>x \<in> set (addrs ks). fresh w1 \<le> x"
    by auto
  have run: "copy_ctor b a w = Some (Return () w')"
    using assms(2) w1(1) w'(1) by (simp add: copy_ctor_def Let_def)
  have a': "wf_list w' a ns" using a1 w'(4) assms(2) by (rule wf_frame) simp
  have "x \<notin> set (addrs ks)" if "x \<in> set (addrs ns)" for x
  proof -
    from lseg_live [OF wf_listD(1) [OF a1] that] have "x < fresh w1" .
    with w'(5) show ?thesis by auto
  qed
  then have "set (addrs ns) \<inter> set (addrs ks) = {}" by blast
  with run w'(2,3) a' show ?thesis
    by - (rule exI [of _ w'], rule exI [of _ ks], simp)
qed

lemma move_ctor_wf:
  assumes "wf_list w a ns" and "a \<noteq> b"
  shows "objs (move_ctor b a w) a = \<lparr>head = None, tail = None, list_size = 0\<rparr>"
    and "wf_list (move_ctor b a w) b ns"
    and "cells (move_ctor b a w) = cells w" and "fresh (move_ctor b a w) = fresh w"
proof -
  note wf = wf_listD [OF assms(1)]
  show o: "objs (move_ctor b a w) a = \<lparr>head = None, tail = None, list_size = 0\<rparr>"
    using assms(2) by (simp add: move_ctor_def Let_def)
  show c: "cells (move_ctor b a w) = cells w" and f: "fresh (move_ctor b a w) = fresh w"
    by (simp_all add: move_ctor_def Let_def)
  have ob: "objs (move_ctor b a w) b = objs w a"
    using assms(2) by (cases "objs w a") (simp add: move_ctor_def Let_def)
  have "deref (move_ctor b a w) = deref w" using c f by (intro ext) (simp add: deref_def)
  then have "lseg (move_ctor b a w) (head (objs w a)) ns None = lseg w (head (objs w a)) ns None"
    by (rule lseg_deref_eq)
  then show "wf_list (move_ctor b a w) b ns"
    using wf ob unfolding wf_list_def by simp
qed

lemma move_assign_wf:
  assumes "wf_list w a ns" and "wf_list w b ms" and "a \<noteq> b"
    and "set (addrs ns) \<inter> set (addrs ms) = {}"
  shows "\<exists>w'. move_assign b a w = Return () w' \<and>
           objs w' a = \<lparr>head = None, tail = None, list_size = 0\<rparr> \<and> wf_list w' b ns \<and>
           fresh w' = fresh w \<and>
           (\<forall>x. cells w' x = (if x \<in> set (addrs ms) then None else cells w x))"
proof -
  note wa = wf_listD [OF assms(1)] and wb = wf_listD [OF assms(2)]
  let ?w1 = "set_head b (head (objs w a)) (set_head a None w)"
  have "lseg ?w1 (head (objs w b)) ms None" using wb(1) by simp
  from release_lseg [OF this wb(2)] obtain w2 where w2:
    "release (head (objs w b)) ?w1 = Return () w2" "fresh w2 = fresh ?w1" "objs w2 = objs ?w1"
    "\<And>x. cells w2 x = (if x \<in> set (addrs ms) then None else cells ?w1 x)"
    by blast
  let ?w3 = "set_tail b (tail (objs w2 a)) w2"
  let ?w4 = "set_size b (list_size (objs ?w3 a)) ?w3"
  let ?w' = "set_size a 0 (set_tail a None ?w4)"
  have run: "move_assign b a w = Return () ?w'"
    using assms(3) w2(1) by (simp add: move_assign_def Let_def)
  have oa: "objs ?w' a = \<lparr>head = None, tail = None, list_size = 0\<rparr>"
    using assms(3) w2(3) by simp
  have ob: "objs ?w' b = objs w a"
    using assms(3) w2(3) by (cases "objs w a") simp
  have f: "fresh ?w' = fresh w" using w2(2) by simp
  have c: "cells ?w' x = (if x \<in> set (addrs ms) then None else cells w x)" for x
    using w2(4) [of x] by simp
  have "lseg ?w' (head (objs w a)) ns None = lseg w (head (objs w a)) ns None"
  proof (rule lseg_cong)
    fix x assume "x \<in> set (addrs ns)"
    with assms(4) have "x \<notin> set (addrs ms)" by blast
    then show "deref ?w' x = deref w x" using c [of x] f by (simp add: deref_def)
  qed
  with wa ob have "wf_list ?w' b ns" unfolding wf_list_def by simp
  with run oa f c show ?thesis by blast
qed

section \<open>Sequences of calls\<close>

lemma apply_op_wf:
  assumes "wf_list w l ns" and "seq_op x (elems ns) = Some ys"
  shows "\<exists>w' ns'. apply_op l x w = Some (Return () w') \<and> wf_list w' l ns' \<and> elems ns' = ys \<and>
           touches w (set (addrs ns)) l w' \<and>
           (\<forall>a \<in> set (addrs ns'). a \<in> set (addrs ns) \<or> fresh w \<le> a)"
proof (cases x)
  case (Append v)
  from push_back_wf [OF assms(1), of v] obtain w' where
    "push_back l v w = Return () w'" "wf_list w' l (ns @ [(fresh w, v)])"
    "touches w (set (addrs ns)) l w'"
    by blast
  then show ?thesis using assms(2) Append
    by - (rule exI [of _ w'], rule exI [of _ "ns @ [(fresh w, v)]"], auto)
next
  case (Prepend v)
  from push_front_wf [OF assms(1), of v] obtain w' where
    "push_front l v w = Return () w'" "wf_list w' l ((fresh w, v) # ns)"
    "touches w {} l w'"
    by blast
  moreover from this(3) have "touches w (set (addrs ns)) l w'" by (rule touches_mono) simp
  ultimately show ?thesis using assms(2) Prepend
    by - (rule exI [of _ w'], rule exI [of _ "(fresh w, v) # ns"], auto)
next
  case RemoveFirst
  with assms(2) obtain ax ms where ns: "ns = ax # ms" "ys = elems ms"
    by (cases ns) auto
  from pop_front_wf [of w l ax ms] assms(1) ns(1) obtain w' where
    "pop_front l w = Return () w'" "wf_list w' l ms" "touches w {fst ax} l w'"
    by blast
  moreover from this(3) have "touches w (set (addrs ns)) l w'"
    by (rule touches_mono) (simp add: ns(1))
  ultimately show ?thesis using ns RemoveFirst
    by - (rule exI [of _ w'], rule exI [of _ ms], auto)
next
  case RemoveLast
  with assms(2) have "ns \<noteq> []" and b: "ys = butlast (elems ns)"
    by (auto simp del: butlast.simps split: list.splits)
  then obtain ms ax where "ns = ms @ [ax]" by (cases ns rule: rev_cases) auto
  with b have ns: "ns = ms @ [ax]" "ys = elems ms" by simp_all
  from pop_back_wf [of w l ms ax] assms(1) ns(1) obtain w' where
    "pop_back l w = Some (Return () w')" "wf_list w' l ms"
    "touches w (set (addrs (ms @ [ax]))) l w'"
    by blast
  then show ?thesis using ns RemoveLast
    by - (rule exI [of _ w'], rule exI [of _ ms], auto)
qed

lemma run_ops_wf:
  "wf_list w l ns \<Longrightarrow> seq_ops ops (elems ns) = Some ys \<Longrightarrow>
   \<exists>w' ns'. run_ops l ops w = Some (Return () w') \<and> wf_list w' l ns' \<and> elems ns' = ys"
proof (induction ops arbitrary: w ns)
  case Nil
  then show ?case by - (rule exI [of _ w], rule exI [of _ ns], simp)
next
  case (Cons x ops)
  from Cons.prems(2) obtain zs where zs: "seq_op x (elems ns) = Some zs" "seq_ops ops zs = Some ys"
    by (auto split: option.splits)
  from apply_op_wf [OF Cons.prems(1) zs(1)] obtain w1 ns1 where w1:
    "apply_op l x w = Some (Return () w1)" "wf_list w1 l ns1" "elems ns1 = zs"
    by blast
  from Cons.IH [OF w1(2)] zs(2) w1(3) obtain w' ns' where
    "run_ops l ops w1 = Some (Return () w')" "wf_list w' l ns'" "elems ns' = ys"
    by auto
  then show ?case using w1(1)
    by - (rule exI [of _ w'], rule exI [of _ ns'], simp)
qed

lemma seq_op_length:
  "seq_op x xs = Some ys \<Longrightarrow> length ys + removes [x] = length xs + adds [x]"
  by (cases x) (auto simp: adds_def removes_def split: list.splits)

lemma adds_Cons: "adds (x # ops) = adds [x] + adds ops"
  by (simp add: adds_def)

lemma removes_Cons: "removes (x # ops) = removes [x] + removes ops"
  by (simp add: removes_def)

lemma seq_ops_length:
  "seq_ops ops xs = Some ys \<Longrightarrow> length ys + removes ops = length xs + adds ops"
proof (induction ops arbitrary: xs)
  case Nil
  then show ?case by (simp add: adds_def removes_def)
next
  case (Cons x ops)
  from Cons.prems obtain zs where zs: "seq_op x xs = Some zs" "seq_ops ops zs = Some ys"
    by (auto split: option.splits)
  from seq_op_length [OF zs(1)] Cons.IH [OF zs(2)] show ?case
    by (simp add: adds_Cons [of x ops] removes_Cons [of x ops])
qed

lemma seq_op_defined:
  "removes [x] \<le> length xs + adds [x] \<Longrightarrow> \<exists>ys. seq_op x xs = Some ys"
  by (cases x) (auto simp: adds_def removes_def split: list.splits)

lemma seq_ops_defined:
  "(\<And>k. k \<le> length ops \<Longrightarrow> removes (take k ops) \<le> length xs + adds (take k ops)) \<Longrightarrow>
   \<exists>ys. seq_ops ops xs = Some ys"
proof (induction ops arbitrary: xs)
  case Nil
  then show ?case by simp
next
  case (Cons x ops)
  from Cons.prems [of 1] have "removes [x] \<le> length xs + adds [x]" by simp
  from seq_op_defined [OF this] obtain zs where zs: "seq_op x xs = Some zs" by blast
  note len = seq_op_length [OF zs]
  have "removes (take k ops) \<le> length zs + adds (take k ops)" if "k \<le> length ops" for k
  proof -
    from Cons.prems [of "Suc k"] that
    have "removes (x # take k ops) \<le> length xs + adds (x # take k ops)" by simp
    with len show ?thesis
      by (simp add: adds_Cons [of x "take k ops"] removes_Cons [of x "take k ops"])
  qed
  from Cons.IH [OF this] obtain ys where "seq_ops ops zs = Some ys" by blast
  with zs show ?case by simp
qed

lemma seq_ops_take:
  "seq_ops ops xs = Some ys \<Longrightarrow> \<exists>zs. seq_ops (take k ops) xs = Some zs"
proof (induction ops arbitrary: xs k)
  case Nil
  then show ?case by simp
next
  case (Cons x ops)
  then show ?case by (cases k) (auto split: option.splits)
qed

lemma seq_ops_counts:
  assumes "seq_ops ops xs = Some ys" and "k \<le> length ops"
  shows "removes (take k ops) \<le> length xs + adds (take k ops)"
proof -
  from seq_ops_take [OF assms(1), of k] obtain zs where "seq_ops (take k ops) xs = Some zs"
    by blast
  from seq_ops_length [OF this] show ?thesis by simp
qed

lemma apply_mutation_wf:
  assumes "wf_list w l ns"
  shows "\<exists>w' ns'. (apply_mutation l m w = Some (Return () w') \<or>
                    (\<exists>e. apply_mutation l m w = Some (Throw e w'))) \<and>
           wf_list w' l ns' \<and> touches w (set (addrs ns)) l w' \<and>
           (\<forall>a \<in> set (addrs ns'). a \<in> set (addrs ns) \<or> fresh w \<le> a)"
proof (cases m)
  case ClearAll
  from clear_wf [OF assms] obtain w' where
    "clear l w = Return () w'" "wf_list w' l []" "touches w (set (addrs ns)) l w'"
    by blast
  then show ?thesis using ClearAll
    by - (rule exI [of _ w'], rule exI [of _ "[]"], simp)
next
  case (Call x)
  show ?thesis
  proof (cases "seq_op x (elems ns)")
    case (Some ys)
    from apply_op_wf [OF assms Some] obtain w' ns' where
      "apply_op l x w = Some (Return () w')" "wf_list w' l ns'"
      "touches w (set (addrs ns)) l w'"
      "\<forall>a \<in> set (addrs ns'). a \<in> set (addrs ns) \<or> fresh w \<le> a"
      by blast
    then show ?thesis using Call
      by - (rule exI [of _ w'], rule exI [of _ ns'], simp)
  next
    case None
    then have e: "ns = []" and x: "x = RemoveFirst \<or> x = RemoveLast"
      by (cases x; cases ns; simp)+
    from e assms have wf: "wf_list w l []" by simp
    have "\<exists>e. apply_mutation l m w = Some (Throw e w)"
      using x Call remove_from_empty [OF wf] by auto
    moreover have "touches w (set (addrs ns)) l w" by (rule touches_refl)
    ultimately show ?thesis using wf e
      by - (rule exI [of _ w], rule exI [of _ "[]"], simp)
  qed
qed

lemma after_mutations_frame:
  "wf_list w b ms \<Longrightarrow> wf_list w a ns \<Longrightarrow> a \<noteq> b \<Longrightarrow> set (addrs ns) \<inter> set (addrs ms) = {} \<Longrightarrow>
   \<exists>w' ms'. after_mutations b muts w = Some w' \<and> wf_list w' b ms' \<and> wf_list w' a ns \<and>
            set (addrs ns) \<inter> set (addrs ms') = {}"
proof (induction muts arbitrary: w ms)
  case Nil
  then show ?case by - (rule exI [of _ w], rule exI [of _ ms], simp)
next
  case (Cons m muts)
  from apply_mutation_wf [OF Cons.prems(1), of m] obtain w1 ms1 where w1:
    "apply_mutation b m w = Some (Return () w1) \<or> (\<exists>e. apply_mutation b m w = Some (Throw e w1))"
    "wf_list w1 b ms1" "touches w (set (addrs ms)) b w1"
    "\<forall>x \<in> set (addrs ms1). x \<in> set (addrs ms) \<or> fresh w \<le> x"
    by blast
  have a1: "wf_list w1 a ns"
    using Cons.prems(2) w1(3) Cons.prems(3,4) by (rule wf_frame)
  have d1: "set (addrs ns) \<inter> set (addrs ms1) = {}"
  proof -
    have "x \<notin> set (addrs ms1)" if "x \<in> set (addrs ns)" for x
    proof -
      from lseg_live [OF wf_listD(1) [OF Cons.prems(2)] that] have "x < fresh w" .
      moreover from that Cons.prems(4) have "x \<notin> set (addrs ms)" by blast
      ultimately show ?thesis using w1(4) by auto
    qed
    then show ?thesis by blast
  qed
  from Cons.IH [OF w1(2) a1 Cons.prems(3) d1] obtain w' ms' where w':
    "after_mutations b muts w1 = Some w'" "wf_list w' b ms'" "wf_list w' a ns"
    "set (addrs ns) \<inter> set (addrs ms') = {}"
    by blast
  have "after_mutations b (m # muts) w = Some w'"
    using w1(1) w'(1) by auto
  with w'(2,3,4) show ?case by blast
qed

section \<open>The structural invariants after \<open>insert_before\<close> at the end\<close>

text \<open>
  Claim C1, at the list \<open>[1]\<close>: the invariants hold after construction, and after
  \<open>insert_before\<close> with a null target and the value 2 they do not. The list is
  \<open>[1, 2]\<close> with size 2, but \<open>tail\<close> is still the head node: it is not reached in
  \<open>size - 1\<close> steps, and its \<open>next\<close> is not null.
\<close>

theorem insert_before_end_leaves_tail_behind:
  "(case ctor_init 0 [1 :: int] empty_world of
      Return _ w \<Rightarrow>
        invariants 0 w \<and>
        (case insert_before 0 None 2 w of
           Some (Return _ w') \<Rightarrow>
             \<not> invariants 0 w' \<and> to_vector 0 w' = Some (Return [1, 2] w') \<and>
             size_sll 0 w' = 2 \<and> tail (objs w' 0) = head (objs w' 0) \<and>
             follow w' (size_sll 0 w' - 1) (head (objs w' 0)) \<noteq> tail (objs w' 0) \<and>
             (case deref w' 0 of Some n \<Rightarrow> nextp n \<noteq> None | None \<Rightarrow> False)
         | _ \<Rightarrow> False)
    | _ \<Rightarrow> False)"
  by (simp add: eval_defs to_vector_loop.simps insert_before_loop.simps invariants_def)

section \<open>The pad conversion\<close>

text \<open>
  Claim C2, at its own example. The list \<open>[1, 2, 3]\<close> converted with \<open>to_array_pad\<close>
  to capacity 5 comes out as \<open>[0, 0, 0, 0, 0]\<close>, not as \<open>[1, 2, 3, 0, 0]\<close>: the
  loop stores the three elements, and \<open>arr.fill(T())\<close> then overwrites every slot,
  whatever the array held to begin with.
\<close>

theorem to_array_pad_overwrites_elements:
  "(case ctor_init 0 [1, 2, 3 :: int] empty_world of
      Return _ w \<Rightarrow>
        (case to_array_pad 5 0 init 0 w of
           Some (Return arr _) \<Rightarrow> arr = [0, 0, 0, 0, 0] \<and> arr \<noteq> [1, 2, 3, 0, 0]
         | _ \<Rightarrow> False)
    | _ \<Rightarrow> False)"
  by (simp add: eval_defs to_array_pad_loop.simps numeral_eq_Suc)

section \<open>\<open>erase_before\<close> at the second node\<close>

text \<open>
  Claim C3, at the list \<open>[1, 2, 3]\<close> with the target its second node (address 1, one
  step from the head): \<open>erase_before\<close> returns normally and the world is the one it
  started in, the list still \<open>[1, 2, 3]\<close> of size 3. The loop stops with \<open>prev\<close>
  null, and the removal is under \<open>if (prev)\<close>.
\<close>

theorem erase_before_second_node_erases_nothing:
  "(case ctor_init 0 [1, 2, 3 :: int] empty_world of
      Return _ w \<Rightarrow>
        head (objs w 0) = Some 0 \<and> follow w 1 (head (objs w 0)) = Some 1 \<and>
        to_vector 0 w = Some (Return [1, 2, 3] w) \<and>
        erase_before 0 (Some 1) w = Some (Return () w) \<and>
        size_sll 0 w = 3
    | _ \<Rightarrow> False)"
  by (simp add: eval_defs to_vector_loop.simps erase_before_loop.simps)

section \<open>Failing calls on an empty list\<close>

text \<open>
  Claim C4. On an empty list (head and tail null, size 0), \<open>pop_front\<close>, \<open>pop_back\<close>,
  \<open>getHead\<close> and \<open>getTail\<close> each throw, with a message of the kind EmptyContainer,
  and the world the throw leaves is the world the call started in.
\<close>

theorem empty_list_operations_throw:
  assumes "objs w l = \<lparr>head = None, tail = None, list_size = 0\<rparr>"
  shows "pop_front l w = Throw ''List is empty: cannot pop front.'' w \<and>
         pop_back l w = Some (Throw ''List is empty: cannot pop back.'' w) \<and>
         getHead l w = Throw ''List is empty: cannot access head.'' w \<and>
         getTail l w = Throw ''List is empty: cannot access tail.'' w \<and>
         kind_of ''List is empty: cannot pop front.'' = Some EmptyContainer \<and>
         kind_of ''List is empty: cannot pop back.'' = Some EmptyContainer \<and>
         kind_of ''List is empty: cannot access head.'' = Some EmptyContainer \<and>
         kind_of ''List is empty: cannot access tail.'' = Some EmptyContainer"
  using assms by (simp add: pop_front_def pop_back_def getHead_def getTail_def kind_of_def)

theorem empty_list_operations_throw_witness:
  "objs (ctor 0 (empty_world :: int world)) 0 = \<lparr>head = None, tail = None, list_size = 0\<rparr> \<and>
   pop_front 0 (ctor 0 (empty_world :: int world)) =
     Throw ''List is empty: cannot pop front.'' (ctor 0 empty_world) \<and>
   pop_back 0 (ctor 0 (empty_world :: int world)) =
     Some (Throw ''List is empty: cannot pop back.'' (ctor 0 empty_world)) \<and>
   getHead 0 (ctor 0 (empty_world :: int world)) =
     Throw ''List is empty: cannot access head.'' (ctor 0 empty_world) \<and>
   getTail 0 (ctor 0 (empty_world :: int world)) =
     Throw ''List is empty: cannot access tail.'' (ctor 0 empty_world)"
proof -
  have h: "objs (ctor 0 (empty_world :: int world)) 0 = \<lparr>head = None, tail = None, list_size = 0\<rparr>"
    by simp
  show ?thesis using h empty_list_operations_throw [OF h] by simp
qed

section \<open>Equality\<close>

lemma equality_wf:
  assumes "wf_list w a ns" and "wf_list w b ms"
  shows "equality a b w = (length ns = length ms \<and> elems ns = elems ms)"
  using to_vector_wf [OF assms(1)] to_vector_wf [OF assms(2)]
    wf_listD(3) [OF assms(1)] wf_listD(3) [OF assms(2)]
  by (simp add: equality_def traversal_def size_sll_def)

text \<open>
  Claim C5. Equality of two list objects, same size and same traversal, is reflexive and
  symmetric. On well-formed lists it holds exactly when the two have the same number of
  nodes and the same elements in order. It tells \<open>[1, 2, 3]\<close> from \<open>[3, 2, 1]\<close> and
  \<open>[1, 2]\<close> from \<open>[1, 2, 3]\<close>, the lists being built by the initializer-list
  constructor.
\<close>

theorem equality_properties:
  "equality a a w \<and> (equality a b w = equality b a w) \<and>
   (wf_list w a ns \<and> wf_list w b ms \<longrightarrow>
      equality a b w = (length ns = length ms \<and> elems ns = elems ms)) \<and>
   (case ctor_init 0 [1, 2, 3 :: int] empty_world of
      Return _ w1 \<Rightarrow>
        (case ctor_init 1 [3, 2, 1] w1 of
           Return _ w2 \<Rightarrow>
             (case ctor_init 2 [1, 2] w2 of
                Return _ w3 \<Rightarrow>
                  \<not> equality 0 1 w3 \<and> \<not> equality 2 0 w3 \<and> \<not> equality 0 2 w3 \<and>
                  traversal 0 w3 = Some [1, 2, 3] \<and> traversal 1 w3 = Some [3, 2, 1] \<and>
                  traversal 2 w3 = Some [1, 2]
              | _ \<Rightarrow> False)
         | _ \<Rightarrow> False)
    | _ \<Rightarrow> False)"
proof -
  have r: "equality a a w" by (simp add: equality_def)
  have s: "equality a b w = equality b a w" by (auto simp: equality_def)
  have g: "wf_list w a ns \<and> wf_list w b ms \<longrightarrow>
      equality a b w = (length ns = length ms \<and> elems ns = elems ms)"
    using equality_wf [of w a ns b ms] by blast
  have c: "(case ctor_init 0 [1, 2, 3 :: int] empty_world of
      Return _ w1 \<Rightarrow>
        (case ctor_init 1 [3, 2, 1] w1 of
           Return _ w2 \<Rightarrow>
             (case ctor_init 2 [1, 2] w2 of
                Return _ w3 \<Rightarrow>
                  \<not> equality 0 1 w3 \<and> \<not> equality 2 0 w3 \<and> \<not> equality 0 2 w3 \<and>
                  traversal 0 w3 = Some [1, 2, 3] \<and> traversal 1 w3 = Some [3, 2, 1] \<and>
                  traversal 2 w3 = Some [1, 2]
              | _ \<Rightarrow> False)
         | _ \<Rightarrow> False)
    | _ \<Rightarrow> False)"
    by (simp add: eval_defs to_vector_loop.simps equality_def traversal_def)
  from r s g c show ?thesis by blast
qed

theorem equality_properties_witness:
  "wf_list (world_of (ctor_init 1 [3, 2, 1] (world_of (ctor_init 0 [1, 2, 3 :: int] empty_world))))
     0 [(0, 1), (1, 2), (2, 3)] \<and>
   wf_list (world_of (ctor_init 1 [3, 2, 1] (world_of (ctor_init 0 [1, 2, 3 :: int] empty_world))))
     1 [(3, 3), (4, 2), (5, 1)] \<and>
   \<not> equality 0 1
       (world_of (ctor_init 1 [3, 2, 1] (world_of (ctor_init 0 [1, 2, 3 :: int] empty_world)))) \<and>
   equality 1 1
     (world_of (ctor_init 1 [3, 2, 1] (world_of (ctor_init 0 [1, 2, 3 :: int] empty_world))))"
proof -
  let ?W = "world_of (ctor_init 1 [3, 2, 1] (world_of (ctor_init 0 [1, 2, 3 :: int] empty_world)))"
  have h: "wf_list ?W 0 [(0, 1), (1, 2), (2, 3)]"
    by (simp add: world_of_def ctor_init_def push_back_def case_prod_beta wf_list_def)
  have g: "wf_list ?W 1 [(3, 3), (4, 2), (5, 1)]"
    by (simp add: world_of_def ctor_init_def push_back_def case_prod_beta wf_list_def)
  note general =
    equality_properties [of 0 ?W 1 "[(0, 1), (1, 2), (2, 3)]" "[(3, 3), (4, 2), (5, 1)]",
      THEN conjunct2, THEN conjunct2, THEN conjunct1]
  note reflexive = equality_properties [of 1 ?W 1 "[]" "[]", THEN conjunct1]
  from general h g have "equality 0 1 ?W =
      (length [(0 :: nat, 1 :: int), (1, 2), (2, 3)] = length [(3 :: nat, 3 :: int), (4, 2), (5, 1)] \<and>
       elems [(0 :: nat, 1 :: int), (1, 2), (2, 3)] = elems [(3 :: nat, 3 :: int), (4, 2), (5, 1)])"
    by blast
  then have "\<not> equality 0 1 ?W" by simp
  with h g reflexive show ?thesis by blast
qed

section \<open>Round trip through a dynamic array\<close>

text \<open>
  On well-formed lists the round trip is the identity: \<open>to_vector\<close> returns the
  elements in traversal order, and assigning that vector to a well-formed list \<open>d\<close>
  (another object, or \<open>l\<close> itself) leaves \<open>d\<close> with those elements and the size
  \<open>l\<close> had.
\<close>

lemma vector_round_trip_wf:
  assumes "wf_list w l ns" and "wf_list w d ms"
  shows "\<exists>vec w'. to_vector l w = Some (Return vec w) \<and> vec = elems ns \<and>
           assign_vector d vec w = Return () w' \<and>
           to_vector d w' = Some (Return vec w') \<and>
           size_sll d w' = size_sll l w"
proof -
  have tv: "to_vector l w = Some (Return (elems ns) w)" using assms(1) by (rule to_vector_wf)
  from assign_vector_wf [OF assms(2), of "elems ns"] obtain w' ks where w':
    "assign_vector d (elems ns) w = Return () w'" "wf_list w' d ks" "elems ks = elems ns"
    by blast
  have "to_vector d w' = Some (Return (elems ns) w')"
    using to_vector_wf [OF w'(2)] w'(3) by simp
  moreover have "size_sll d w' = size_sll l w"
    using wf_listD(3) [OF w'(2)] wf_listD(3) [OF assms(1)] w'(3)
    by (simp add: size_sll_def) (metis length_map)
  ultimately show ?thesis using tv w'(1) by blast
qed

text \<open>
  Claim C6, at the list \<open>{1}\<close> after \<open>insert_before(nullptr, 2)\<close> and
  \<open>push_back(3)\<close>. \<open>insert_before\<close> left \<open>tail\<close> on the first node, so
  \<open>push_back\<close> links the new node after the first node and the node holding 2 is
  released: the list is \<open>[1, 3]\<close> with \<open>size\<close> 3. \<open>to_vector\<close> returns
  \<open>[1, 3]\<close>, and a list assigned from that vector has \<open>size\<close> 2, not 3.
\<close>

theorem round_trip_after_lost_node:
  "(case ctor_init 0 [1 :: int] empty_world of
      Return _ w1 \<Rightarrow>
        (case insert_before 0 None 2 w1 of
           Some (Return _ w2) \<Rightarrow>
             (case push_back 0 3 w2 of
                Return _ w3 \<Rightarrow>
                  size_sll 0 w3 = 3 \<and> to_vector 0 w3 = Some (Return [1, 3] w3) \<and>
                  (case assign_vector 1 [1, 3] (ctor 1 w3) of
                     Return _ w4 \<Rightarrow>
                       to_vector 1 w4 = Some (Return [1, 3] w4) \<and> size_sll 1 w4 = 2 \<and>
                       size_sll 1 w4 \<noteq> size_sll 0 w3
                   | _ \<Rightarrow> False)
              | _ \<Rightarrow> False)
         | _ \<Rightarrow> False)
    | _ \<Rightarrow> False)"
  by (simp add: eval_defs to_vector_loop.simps insert_before_loop.simps assign_vector_def
      deref_cells_update)

section \<open>Moving\<close>

lemma move_assign_self: "move_assign a a w = Return () w"
  by (simp add: move_assign_def)

text \<open>
  Claim C7. Let \<open>a\<close> be a well-formed list and \<open>b\<close> another list object. After
  move-construction of \<open>b\<close> from \<open>a\<close>, \<open>a\<close> is empty (head and tail null, size 0) and
  \<open>b\<close> is the list over the very nodes \<open>a\<close> had, in the same order; no node was created,
  destroyed or changed. After move-assignment to a well-formed \<open>b\<close> that shares no node
  with \<open>a\<close>, the same holds, except that the nodes \<open>b\<close> had before are destroyed.
\<close>

theorem move_transfers_the_chain:
  assumes "wf_list w a ns" and "a \<noteq> b"
  shows "objs (move_ctor b a w) a = \<lparr>head = None, tail = None, list_size = 0\<rparr> \<and>
         wf_list (move_ctor b a w) b ns \<and>
         to_vector b (move_ctor b a w) = Some (Return (elems ns) (move_ctor b a w)) \<and>
         cells (move_ctor b a w) = cells w \<and> fresh (move_ctor b a w) = fresh w \<and>
         (wf_list w b ms \<and> set (addrs ns) \<inter> set (addrs ms) = {} \<longrightarrow>
            (\<exists>w'. move_assign b a w = Return () w' \<and>
                   objs w' a = \<lparr>head = None, tail = None, list_size = 0\<rparr> \<and>
                   wf_list w' b ns \<and>
                   to_vector b w' = Some (Return (elems ns) w') \<and>
                   fresh w' = fresh w \<and>
                   (\<forall>x. cells w' x = (if x \<in> set (addrs ms) then None else cells w x))))"
proof -
  note mc = move_ctor_wf [OF assms]
  have tv: "to_vector b (move_ctor b a w) = Some (Return (elems ns) (move_ctor b a w))"
    using mc(2) by (rule to_vector_wf)
  have "\<exists>w'. move_assign b a w = Return () w' \<and>
              objs w' a = \<lparr>head = None, tail = None, list_size = 0\<rparr> \<and>
              wf_list w' b ns \<and> to_vector b w' = Some (Return (elems ns) w') \<and>
              fresh w' = fresh w \<and>
              (\<forall>x. cells w' x = (if x \<in> set (addrs ms) then None else cells w x))"
    if "wf_list w b ms" "set (addrs ns) \<inter> set (addrs ms) = {}"
  proof -
    from move_assign_wf [OF assms(1) that(1) assms(2) that(2)] obtain w' where w':
      "move_assign b a w = Return () w'"
      "objs w' a = \<lparr>head = None, tail = None, list_size = 0\<rparr>" "wf_list w' b ns"
      "fresh w' = fresh w"
      "\<forall>x. cells w' x = (if x \<in> set (addrs ms) then None else cells w x)"
      by blast
    with to_vector_wf [OF w'(3)] show ?thesis by blast
  qed
  with mc tv show ?thesis by blast
qed

theorem move_transfers_the_chain_witness:
  "wf_list (world_of (ctor_init 1 [9] (world_of (ctor_init 0 [1, 2, 3 :: int] empty_world))))
     0 [(0, 1), (1, 2), (2, 3)] \<and>
   wf_list (world_of (ctor_init 1 [9] (world_of (ctor_init 0 [1, 2, 3 :: int] empty_world))))
     1 [(3, 9)] \<and>
   (\<exists>w'. move_assign 1 0
            (world_of (ctor_init 1 [9] (world_of (ctor_init 0 [1, 2, 3 :: int] empty_world)))) =
            Return () w' \<and>
          objs w' 0 = \<lparr>head = None, tail = None, list_size = 0\<rparr> \<and>
          to_vector 1 w' = Some (Return [1, 2, 3] w') \<and> size_sll 1 w' = 3 \<and>
          cells w' 3 = None)"
proof -
  let ?W = "world_of (ctor_init 1 [9] (world_of (ctor_init 0 [1, 2, 3 :: int] empty_world)))"
  have h: "wf_list ?W 0 [(0, 1), (1, 2), (2, 3)]"
    by (simp add: world_of_def ctor_init_def push_back_def case_prod_beta wf_list_def)
  have g: "wf_list ?W 1 [(3, 9)]"
    by (simp add: world_of_def ctor_init_def push_back_def case_prod_beta wf_list_def)
  have n: "(0 :: nat) \<noteq> 1" by simp
  have d: "set (addrs [(0 :: nat, 1 :: int), (1, 2), (2, 3)]) \<inter> set (addrs [(3 :: nat, 9 :: int)]) = {}"
    by simp
  from move_transfers_the_chain [OF h n, of "[(3, 9)]"] g d obtain w' where w':
    "move_assign 1 0 ?W = Return () w'"
    "objs w' 0 = \<lparr>head = None, tail = None, list_size = 0\<rparr>"
    "wf_list w' 1 [(0, 1), (1, 2), (2, 3)]"
    "to_vector 1 w' = Some (Return (elems [(0 :: nat, 1 :: int), (1, 2), (2, 3)]) w')"
    "\<forall>x. cells w' x = (if x \<in> set (addrs [(3 :: nat, 9 :: int)]) then None else cells ?W x)"
    by blast
  have "size_sll 1 w' = 3" using wf_listD(3) [OF w'(3)] by (simp add: size_sll_def)
  moreover have "cells w' 3 = None" using w'(5) by simp
  ultimately show ?thesis using h g w'(1,2,4) by auto
qed

section \<open>Copy construction\<close>

text \<open>
  Copy-constructing \<open>b\<close> from a well-formed list \<open>a\<close> returns normally; \<open>b\<close> then has
  the size of \<open>a\<close> and the elements of \<open>a\<close> in traversal order, over nodes none of which
  is a node of \<open>a\<close>. After any sequence of \<open>push_back\<close>, \<open>push_front\<close>,
  \<open>pop_front\<close>, \<open>pop_back\<close> and \<open>clear\<close> calls on \<open>b\<close>, whether they return or
  throw, \<open>a\<close> still has the size and the elements it had.
\<close>

lemma copy_is_independent_wf:
  assumes "wf_list w a ns" and "a \<noteq> b"
  shows "\<exists>w1 ms. copy_ctor b a w = Some (Return () w1) \<and>
           to_vector b w1 = Some (Return (elems ns) w1) \<and> size_sll b w1 = size_sll a w \<and>
           wf_list w1 b ms \<and> set (addrs ns) \<inter> set (addrs ms) = {} \<and>
           (\<forall>muts. \<exists>w2. after_mutations b muts w1 = Some w2 \<and>
                      to_vector a w2 = Some (Return (elems ns) w2) \<and>
                      size_sll a w2 = size_sll a w)"
proof -
  from copy_ctor_wf [OF assms] obtain w1 ms where w1:
    "copy_ctor b a w = Some (Return () w1)" "wf_list w1 b ms" "elems ms = elems ns"
    "wf_list w1 a ns" "set (addrs ns) \<inter> set (addrs ms) = {}"
    by blast
  have sa: "size_sll a w = length ns" using wf_listD(3) [OF assms(1)] by (simp add: size_sll_def)
  have "length ms = length ns" using w1(3) by (metis length_map)
  then have sb: "size_sll b w1 = size_sll a w"
    using wf_listD(3) [OF w1(2)] sa by (simp add: size_sll_def)
  have tb: "to_vector b w1 = Some (Return (elems ns) w1)"
    using to_vector_wf [OF w1(2)] w1(3) by simp
  have "\<exists>w2. after_mutations b muts w1 = Some w2 \<and>
             to_vector a w2 = Some (Return (elems ns) w2) \<and> size_sll a w2 = size_sll a w"
    for muts
  proof -
    from after_mutations_frame [OF w1(2) w1(4) assms(2) w1(5), of muts] obtain w2 where w2:
      "after_mutations b muts w1 = Some w2" "wf_list w2 a ns"
      by blast
    have "size_sll a w2 = size_sll a w"
      using wf_listD(3) [OF w2(2)] sa by (simp add: size_sll_def)
    with w2(1) to_vector_wf [OF w2(2)] show ?thesis by blast
  qed
  with w1(1,2,5) sb tb show ?thesis by blast
qed

text \<open>
  Claim C8, at the list \<open>{1}\<close> after \<open>insert_before(nullptr, 2)\<close> and
  \<open>push_back(3)\<close>, which is \<open>[1, 3]\<close> with \<open>size\<close> 3 (see claim C6). Its copy
  has the elements \<open>[1, 3]\<close> and \<open>size\<close> 2: the copy constructor counts the nodes
  it copies, and the source's \<open>size\<close> is one more than its number of nodes.
\<close>

theorem copy_after_lost_node:
  "(case ctor_init 0 [1 :: int] empty_world of
      Return _ w1 \<Rightarrow>
        (case insert_before 0 None 2 w1 of
           Some (Return _ w2) \<Rightarrow>
             (case push_back 0 3 w2 of
                Return _ w3 \<Rightarrow>
                  size_sll 0 w3 = 3 \<and> to_vector 0 w3 = Some (Return [1, 3] w3) \<and>
                  (case copy_ctor 1 0 w3 of
                     Some (Return _ w4) \<Rightarrow>
                       to_vector 1 w4 = Some (Return [1, 3] w4) \<and> size_sll 1 w4 = 2 \<and>
                       to_vector 0 w4 = Some (Return [1, 3] w4) \<and> size_sll 0 w4 = 3 \<and>
                       size_sll 1 w4 \<noteq> size_sll 0 w4
                   | _ \<Rightarrow> False)
              | _ \<Rightarrow> False)
         | _ \<Rightarrow> False)
    | _ \<Rightarrow> False)"
  by (simp add: eval_defs to_vector_loop.simps insert_before_loop.simps copy_ctor_def
      copy_loop.simps deref_cells_update Let_def)

section \<open>Sequences of appends, prepends and removals\<close>

text \<open>
  Claim C9. Take any sequence of \<open>push_back\<close>, \<open>push_front\<close>, \<open>pop_front\<close> and
  \<open>pop_back\<close> calls on a freshly constructed list in which no removal meets an empty
  list: in every prefix the removals are at most as many as the additions. Then every
  call returns normally, \<open>size\<close> is the number of additions minus the number of
  removals, the traversal is the sequence of values the calls describe, and
  \<open>getHead\<close> and \<open>getTail\<close> return its first and last value. In particular
  \<open>append 1; append 2; prepend 0\<close> gives \<open>[0, 1, 2]\<close> with size 3, \<open>removeFirst\<close>
  then gives \<open>[1, 2]\<close>, and \<open>removeLast\<close> then gives \<open>[1]\<close> with front and back 1.
\<close>

theorem push_pop_sequences:
  assumes "\<forall>k \<le> length ops. removes (take k ops) \<le> adds (take k ops)"
  shows "(\<exists>w' xs. run_ops l ops (ctor l w) = Some (Return () w') \<and>
            size_sll l w' = adds ops - removes ops \<and>
            to_vector l w' = Some (Return xs w') \<and>
            seq_ops ops [] = Some xs \<and> length xs = size_sll l w' \<and>
            (xs \<noteq> [] \<longrightarrow>
               getHead l w' = Return (hd xs) w' \<and> getTail l w' = Return (last xs) w')) \<and>
         (case run_ops 0 [Append 1, Append 2, Prepend 0] (ctor 0 empty_world) of
            Some (Return _ w3) \<Rightarrow>
              to_vector 0 w3 = Some (Return [0, 1, 2 :: int] w3) \<and> size_sll 0 w3 = 3 \<and>
              (case run_ops 0 [RemoveFirst] w3 of
                 Some (Return _ w4) \<Rightarrow>
                   to_vector 0 w4 = Some (Return [1, 2] w4) \<and>
                   (case run_ops 0 [RemoveLast] w4 of
                      Some (Return _ w5) \<Rightarrow>
                        to_vector 0 w5 = Some (Return [1] w5) \<and>
                        getHead 0 w5 = Return 1 w5 \<and> getTail 0 w5 = Return 1 w5
                    | _ \<Rightarrow> False)
               | _ \<Rightarrow> False)
          | _ \<Rightarrow> False)"
proof (rule conjI)
  have "removes (take k ops) \<le> length ([] :: 'a list) + adds (take k ops)"
    if "k \<le> length ops" for k
    using assms that by simp
  from seq_ops_defined [OF this] obtain xs where xs: "seq_ops ops [] = Some xs" by blast
  have wf0: "wf_list (ctor l w) l []" by (simp add: wf_list_def)
  from run_ops_wf [OF wf0, of ops xs] xs obtain w' ns where w':
    "run_ops l ops (ctor l w) = Some (Return () w')" "wf_list w' l ns" "elems ns = xs"
    by auto
  have len: "length xs = size_sll l w'"
    using wf_listD(3) [OF w'(2)] w'(3) by (auto simp: size_sll_def)
  from seq_ops_length [OF xs] have "length xs + removes ops = adds ops" by simp
  with len have sz: "size_sll l w' = adds ops - removes ops" by simp
  have tv: "to_vector l w' = Some (Return xs w')" using to_vector_wf [OF w'(2)] w'(3) by simp
  have "getHead l w' = Return (hd xs) w' \<and> getTail l w' = Return (last xs) w'" if "xs \<noteq> []"
  proof -
    from that w'(3) have "ns \<noteq> []" by auto
    from getHead_wf [OF w'(2) this] getTail_wf [OF w'(2) this] w'(3) show ?thesis by simp
  qed
  with w'(1) sz tv xs len
  show "\<exists>w' xs. run_ops l ops (ctor l w) = Some (Return () w') \<and>
            size_sll l w' = adds ops - removes ops \<and>
            to_vector l w' = Some (Return xs w') \<and>
            seq_ops ops [] = Some xs \<and> length xs = size_sll l w' \<and>
            (xs \<noteq> [] \<longrightarrow>
               getHead l w' = Return (hd xs) w' \<and> getTail l w' = Return (last xs) w')"
    by blast
next
  show "case run_ops 0 [Append 1, Append 2, Prepend 0] (ctor 0 empty_world) of
            Some (Return _ w3) \<Rightarrow>
              to_vector 0 w3 = Some (Return [0, 1, 2 :: int] w3) \<and> size_sll 0 w3 = 3 \<and>
              (case run_ops 0 [RemoveFirst] w3 of
                 Some (Return _ w4) \<Rightarrow>
                   to_vector 0 w4 = Some (Return [1, 2] w4) \<and>
                   (case run_ops 0 [RemoveLast] w4 of
                      Some (Return _ w5) \<Rightarrow>
                        to_vector 0 w5 = Some (Return [1] w5) \<and>
                        getHead 0 w5 = Return 1 w5 \<and> getTail 0 w5 = Return 1 w5
                    | _ \<Rightarrow> False)
               | _ \<Rightarrow> False)
          | _ \<Rightarrow> False"
    by (simp add: eval_defs to_vector_loop.simps pop_back_loop.simps Let_def deref_cells_update)
qed

theorem push_pop_sequences_witness:
  "seq_ops [Append 1, Append 2, Prepend 0, RemoveFirst, RemoveLast :: int op] [] = Some [1] \<and>
   (\<exists>w'. run_ops 0 [Append 1, Append 2, Prepend 0, RemoveFirst, RemoveLast :: int op]
            (ctor 0 empty_world) = Some (Return () w') \<and>
          size_sll 0 w' = 1 \<and> to_vector 0 w' = Some (Return [1] w') \<and>
          getHead 0 w' = Return 1 w' \<and> getTail 0 w' = Return 1 w')"
proof -
  let ?ops = "[Append 1, Append 2, Prepend 0, RemoveFirst, RemoveLast :: int op]"
  have s: "seq_ops ?ops [] = Some [1]" by simp
  have h: "\<forall>k \<le> length ?ops. removes (take k ?ops) \<le> adds (take k ?ops)"
    using seq_ops_counts [OF s] by simp
  have c: "adds ?ops - removes ?ops = 1" by (simp add: adds_def removes_def)
  from push_pop_sequences [OF h, of 0 empty_world] s c h show ?thesis by auto
qed

section \<open>\<open>insert_before\<close> with a null target\<close>

text \<open>
  On a nonempty well-formed list, \<open>insert_before\<close> with a null target leaves \<open>tail\<close>
  on the old last node, and \<open>getTail\<close> returns the old last element, as it did
  before the call.
\<close>

lemma insert_before_null_wf:
  assumes "wf_list w l ns" and "ns \<noteq> []"
  shows "\<exists>w'. insert_before l None v w = Some (Return () w') \<and>
              lseg w' (head (objs w' l)) (ns @ [(fresh w, v)]) None \<and>
              to_vector l w' = Some (Return (elems ns @ [v]) w') \<and>
              size_sll l w' = Suc (size_sll l w) \<and>
              tail (objs w' l) = tail (objs w l) \<and>
              tail (objs w' l) = Some (fst (last ns)) \<and>
              getTail l w = Return (last (elems ns)) w \<and>
              getTail l w' = Return (last (elems ns)) w'"
proof -
  from assms(2) obtain ms cx where ns: "ns = ms @ [cx]" by (cases ns rule: rev_cases) auto
  from insert_before_null_chain [of w l ms cx v] wf_listD(1) [OF assms(1)] ns obtain w' where w':
    "insert_before l None v w = Some (Return () w')"
    "lseg w' (head (objs w' l)) (ns @ [(fresh w, v)]) None"
    "objs w' l = (objs w l)\<lparr>list_size := Suc (list_size (objs w l))\<rparr>"
    "deref w' (fst cx) = Some \<lparr>data = snd cx, nextp = Some (fresh w)\<rparr>"
    by auto
  have tl: "tail (objs w l) = Some (fst cx)" using wf_listD(4) [OF assms(1)] ns by simp
  have "to_vector l w' = Some (Return (elems ns @ [v]) w')"
    using to_vector_loop_lseg [OF w'(2), of "[]"] by (simp add: to_vector_def)
  moreover have "size_sll l w' = Suc (size_sll l w)" using w'(3) by (simp add: size_sll_def)
  moreover have "tail (objs w' l) = tail (objs w l)" using w'(3) by simp
  moreover have "tail (objs w' l) = Some (fst (last ns))" using w'(3) tl ns by simp
  moreover have "getTail l w = Return (last (elems ns)) w"
    using getTail_wf [OF assms] .
  moreover have "getTail l w' = Return (last (elems ns)) w'"
    using w'(3,4) tl ns by (simp add: getTail_def)
  ultimately show ?thesis using w'(1,2) by blast
qed

text \<open>
  Claim C10, as amended. Take any list whose traversal returns a nonempty sequence. Then
  \<open>insert_before\<close> with a null target returns normally (it does not throw): the
  traversal afterwards is the old one followed by the value, and \<open>size\<close> has grown
  by one. Nothing is said about \<open>tail\<close>.
\<close>

theorem insert_before_null_appends:
  assumes "to_vector l w = Some (Return xs w)" and "xs \<noteq> []"
  shows "\<exists>w'. insert_before l None v w = Some (Return () w') \<and>
              to_vector l w' = Some (Return (xs @ [v]) w') \<and>
              size_sll l w' = Suc (size_sll l w)"
proof -
  from to_vector_chain [OF assms(1)] obtain ns where ns:
    "lseg w (head (objs w l)) ns None" "elems ns = xs"
    by blast
  with assms(2) obtain ms cx where sp: "ns = ms @ [cx]" by (cases ns rule: rev_cases) auto
  from insert_before_null_chain [of w l ms cx v] ns(1) sp obtain w' where w':
    "insert_before l None v w = Some (Return () w')"
    "lseg w' (head (objs w' l)) (ns @ [(fresh w, v)]) None"
    "objs w' l = (objs w l)\<lparr>list_size := Suc (list_size (objs w l))\<rparr>"
    by auto
  have "to_vector l w' = Some (Return (xs @ [v]) w')"
    using to_vector_loop_lseg [OF w'(2), of "[]"] ns(2) by (simp add: to_vector_def)
  moreover have "size_sll l w' = Suc (size_sll l w)" using w'(3) by (simp add: size_sll_def)
  ultimately show ?thesis using w'(1) by blast
qed

theorem insert_before_null_appends_witness:
  "to_vector 0 stale_tail_world = Some (Return [1, 2] stale_tail_world) \<and>
   (\<exists>w'. insert_before 0 None 3 stale_tail_world = Some (Return () w') \<and>
          to_vector 0 w' = Some (Return [1, 2, 3] w') \<and> size_sll 0 w' = 3)"
proof -
  have h: "to_vector 0 stale_tail_world = Some (Return [1, 2] stale_tail_world)"
    by (simp add: stale_defs eval_defs to_vector_loop.simps insert_before_loop.simps)
  have n: "[1, 2 :: int] \<noteq> []" by simp
  have s: "size_sll 0 stale_tail_world = 2"
    by (simp add: stale_defs eval_defs insert_before_loop.simps)
  from insert_before_null_appends [OF h n, of 3] s h show ?thesis by simp
qed

text \<open>
  Claim C10 as it was stated fails at the list \<open>{1}\<close> after
  \<open>insert_before(nullptr, 2)\<close>: the list is \<open>[1, 2]\<close>, its last node is at address 1
  and \<open>tail\<close> is address 0. After \<open>insert_before(nullptr, 3)\<close>, \<open>tail\<close> is not
  the previous last node, and \<open>getTail\<close> returns 1, not the old last element 2.
\<close>

theorem insert_before_null_tail_counterexample:
  "ctor_init 0 [1] empty_world = Return () (world_of (ctor_init 0 [1] empty_world)) \<and>
   insert_before 0 None 2 (world_of (ctor_init 0 [1] empty_world)) =
     Some (Return () stale_tail_world) \<and>
   to_vector 0 stale_tail_world = Some (Return [1, 2] stale_tail_world) \<and>
   follow stale_tail_world 1 (head (objs stale_tail_world 0)) = Some 1 \<and>
   follow stale_tail_world 2 (head (objs stale_tail_world 0)) = None \<and>
   tail (objs stale_tail_world 0) = Some 0 \<and>
   insert_before 0 None 3 stale_tail_world =
     Some (Return () (world_of_opt (insert_before 0 None 3 stale_tail_world))) \<and>
   tail (objs (world_of_opt (insert_before 0 None 3 stale_tail_world)) 0) \<noteq> Some 1 \<and>
   getTail 0 (world_of_opt (insert_before 0 None 3 stale_tail_world)) =
     Return 1 (world_of_opt (insert_before 0 None 3 stale_tail_world)) \<and>
   getTail 0 (world_of_opt (insert_before 0 None 3 stale_tail_world)) \<noteq>
     Return (last [1, 2]) (world_of_opt (insert_before 0 None 3 stale_tail_world))"
  by (simp add: stale_defs eval_defs to_vector_loop.simps insert_before_loop.simps
      numeral_2_eq_2)

end
